theory Spec2Isabelle
  imports Complex_Main "HOL-Library.Sublist" "HOL-Library.Multiset" "HOL-Library.Log_Nat"
begin

section \<open>Host-language primitives\<close>

text \<open>
  The rendering engine of \<^verbatim>\<open>src/lib/bar-item.ts\<close> is embedded below. A number is
  the rational value of a finite IEEE-754 double: a reading or a literal that is not one
  stands for the nearest double, and a product or a quotient is rounded to the nearest
  double, ties to even. NaN, the infinities (a progress whose total is zero, an overflow)
  and the sign of zero are outside the model. Counts of character cells are integers,
  which the host subtracts exactly below \<open>2 ^ 53\<close>. A string is a list of characters,
  one per code unit, of any length. The embedded code can raise the \<^verbatim>\<open>RangeError\<close> of
  \<^verbatim>\<open>String.prototype.repeat\<close> on a negative count, and the \<^verbatim>\<open>TypeError\<close> of a call
  of what is not a function.
\<close>

datatype error = RangeError | TypeError

subsection \<open>Numbers\<close>

text \<open>The exponent of the binade of a positive number: the floor of its binary logarithm.\<close>

definition floor_log2 :: "rat \<Rightarrow> int" where
  "floor_log2 x = (if 1 \<le> x then bitlen \<lfloor>x\<rfloor> - 1 else - bitlen (\<lceil>1 / x\<rceil> - 1))"

definition pow2 :: "int \<Rightarrow> rat" where
  "pow2 j = (if 0 \<le> j then 2 ^ nat j else 1 / 2 ^ nat (- j))"

definition round_half_even :: "rat \<Rightarrow> int" where
  "round_half_even x =
     (let f = \<lfloor>x\<rfloor>; d = x - of_int f
      in if d < 1 / 2 then f else if 1 / 2 < d then f + 1 else if even f then f else f + 1)"

text \<open>
  The exponent of the unit in the last place: 52 binary places below the binade, and
  never below the subnormal spacing \<open>2 ^ -1074\<close>.
\<close>

definition ulp_exponent :: "rat \<Rightarrow> int" where
  "ulp_exponent x = max (- 1074) (floor_log2 \<bar>x\<bar> - 52)"

text \<open>The nearest double, ties to even.\<close>

definition to_double :: "rat \<Rightarrow> rat" where
  "to_double x =
     (if x = 0 then 0
      else of_int (round_half_even (x / pow2 (ulp_exponent x))) * pow2 (ulp_exponent x))"

text \<open>The operators \<^verbatim>\<open>*\<close> and \<^verbatim>\<open>/\<close> on numbers.\<close>

definition times_double :: "rat \<Rightarrow> rat \<Rightarrow> rat" where
  "times_double x y = to_double (to_double x * to_double y)"

definition divide_double :: "rat \<Rightarrow> rat \<Rightarrow> rat" where
  "divide_double x y = to_double (to_double x / to_double y)"

text \<open>\<^verbatim>\<open>Math.round\<close>: the nearest integer, a half rounding up.\<close>

definition Math_round :: "rat \<Rightarrow> int" where
  "Math_round x = \<lfloor>x + 1 / 2\<rfloor>"

text \<open>\<^verbatim>\<open>Math.sign\<close> on integers.\<close>

definition Math_sign :: "int \<Rightarrow> int" where
  "Math_sign x = (if x < 0 then - 1 else if x = 0 then 0 else 1)"

subsection \<open>Strings and arrays\<close>

text \<open>\<^verbatim>\<open>String.prototype.repeat\<close>: a negative count throws.\<close>

definition repeat :: "string \<Rightarrow> int \<Rightarrow> error + string" where
  "repeat s n = (if n < 0 then Inl RangeError else Inr (concat (replicate (nat n) s)))"

text \<open>\<^verbatim>\<open>Array.prototype.join\<close>.\<close>

fun join :: "string \<Rightarrow> string list \<Rightarrow> string" where
  "join sep [] = []"
| "join sep [x] = x"
| "join sep (x # y # ys) = x @ sep @ join sep (y # ys)"

text \<open>Decimal printing of an integer (\<^verbatim>\<open>Number.prototype.toString\<close> on whole numbers).\<close>

fun nat_digits :: "nat \<Rightarrow> string" where
  "nat_digits n =
     (if n < 10 then [''0123456789'' ! n]
      else nat_digits (n div 10) @ [''0123456789'' ! (n mod 10)])"

declare nat_digits.simps [simp del]

definition Number_toString :: "int \<Rightarrow> string" where
  "Number_toString i = (if i < 0 then ''-'' @ nat_digits (nat (- i)) else nat_digits (nat i))"

text \<open>
  \<^verbatim>\<open>String.prototype.split\<close> with a string separator: an empty separator cuts the
  string into its code units; otherwise the string is cut at every occurrence of the
  separator, found from left to right.
\<close>

fun split_from :: "string \<Rightarrow> string \<Rightarrow> string \<Rightarrow> string list" where
  "split_from sep acc [] = [rev acc]"
| "split_from sep acc (c # cs) =
     (if prefix sep (c # cs)
      then rev acc # split_from sep [] (drop (length sep - 1) cs)
      else split_from sep (c # acc) cs)"

definition split :: "string \<Rightarrow> string \<Rightarrow> string list" where
  "split s sep = (if sep = [] then map (\<lambda>c. [c]) s else split_from sep [] s)"

text \<open>
  \<^verbatim>\<open>Array.prototype.sort\<close> with a comparator. The sort is stable, and for a
  consistent comparator its result is the one of an insertion sort that puts an element
  before the first one it does not compare greater than.
\<close>

fun insort_cmp :: "('a \<Rightarrow> 'a \<Rightarrow> int) \<Rightarrow> 'a \<Rightarrow> 'a list \<Rightarrow> 'a list" where
  "insort_cmp cmp x [] = [x]"
| "insort_cmp cmp x (y # ys) = (if cmp x y \<le> 0 then x # y # ys else y # insort_cmp cmp x ys)"

definition Array_sort :: "('a \<Rightarrow> 'a \<Rightarrow> int) \<Rightarrow> 'a list \<Rightarrow> 'a list" where
  "Array_sort cmp xs = foldr (insort_cmp cmp) xs []"

text \<open>\<^verbatim>\<open>Array.prototype.findIndex\<close>: the first position that satisfies the test, or -1.\<close>

fun findIndex :: "('a \<Rightarrow> bool) \<Rightarrow> 'a list \<Rightarrow> int" where
  "findIndex P [] = - 1"
| "findIndex P (x # xs) = (if P x then 0 else (let i = findIndex P xs in if i < 0 then - 1 else i + 1))"

subsection \<open>Objects\<close>

text \<open>
  The tables of the code (a payload, the formatters, the data providers) are object
  literals, read with \<^verbatim>\<open>table[key]\<close>: a key that is not an own entry is looked up on
  \<^verbatim>\<open>Object.prototype\<close>. The values met there and the values their calls return are,
  beside strings: a built-in function, named as it prints; \<^verbatim>\<open>Object.prototype\<close>
  itself; an object that prints in the default way (a table, a progress); a boolean;
  \<^verbatim>\<open>undefined\<close>. Tables and progresses keep the default string form of objects (none
  has a \<^verbatim>\<open>toString\<close> or \<^verbatim>\<open>valueOf\<close> of its own that the host would call).
\<close>

datatype jsval = Str string | Fn string | Proto | Obj | Bool bool | Undefined

definition Object_prototype :: "string \<Rightarrow> jsval option" where
  "Object_prototype key =
     (if key = ''__proto__'' then Some Proto
      else if key = ''constructor'' then Some (Fn ''Object'')
      else if key \<in> set [''__defineGetter__'', ''__defineSetter__'', ''hasOwnProperty'',
                          ''__lookupGetter__'', ''__lookupSetter__'', ''isPrototypeOf'',
                          ''propertyIsEnumerable'', ''toString'', ''valueOf'', ''toLocaleString'']
      then Some (Fn key)
      else None)"

text \<open>The conversion of a value to a string, as \<^verbatim>\<open>replace\<close> applies it to what its callback returns.\<close>

definition String_of :: "jsval \<Rightarrow> string" where
  "String_of v =
     (case v of
        Str s \<Rightarrow> s
      | Fn n \<Rightarrow> ''function '' @ n @ ''() { [native code] }''
      | Proto \<Rightarrow> ''[object Object]''
      | Obj \<Rightarrow> ''[object Object]''
      | Bool c \<Rightarrow> (if c then ''true'' else ''false'')
      | Undefined \<Rightarrow> ''undefined'')"

text \<open>
  The call \<^verbatim>\<open>table[key](arg, other)\<close> of a member \<open>m\<close> found on \<^verbatim>\<open>Object.prototype\<close>,
  as a method of a table whose own keys are \<open>own\<close>; the second argument is an array or
  a progress, hence not a function. \<^verbatim>\<open>Object.prototype\<close> itself is not a function, and
  \<^verbatim>\<open>__defineGetter__\<close> and \<^verbatim>\<open>__defineSetter__\<close> refuse a second argument that is not one.
\<close>

definition call_inherited :: "jsval \<Rightarrow> (string \<Rightarrow> bool) \<Rightarrow> jsval \<Rightarrow> error + jsval" where
  "call_inherited m own arg =
     (case m of
        Fn n \<Rightarrow>
          if n = ''toString'' \<or> n = ''toLocaleString'' then Inr (Str ''[object Object]'')
          else if n = ''valueOf'' then Inr Obj
          else if n = ''Object'' then Inr (case arg of Undefined \<Rightarrow> Obj | _ \<Rightarrow> arg)
          else if n = ''hasOwnProperty'' \<or> n = ''propertyIsEnumerable''
            then Inr (Bool (own (String_of arg)))
          else if n = ''isPrototypeOf'' then Inr (Bool False)
          else if n = ''__lookupGetter__''
            then Inr (if String_of arg = ''__proto__'' \<and> \<not> own ''__proto__''
                      then Fn ''get __proto__'' else Undefined)
          else if n = ''__lookupSetter__''
            then Inr (if String_of arg = ''__proto__'' \<and> \<not> own ''__proto__''
                      then Fn ''set __proto__'' else Undefined)
          else Inl TypeError
      | _ \<Rightarrow> Inl TypeError)"

section \<open>Data model\<close>

text \<open>
  \<^verbatim>\<open>IProgress\<close> is an interface whose implementation is not part of the sources
  embedded here: a progress is the record of what its getters return when the item is
  rendered. Values and totals are whole unit counts; \<open>None\<close> stands for NaN in the
  readings of the ETA calculator. A payload, like the tables of formatters and providers,
  is given by its own entries; it is an object literal, as in
  \<^verbatim>\<open>payload: { value: "custom" }\<close>.
\<close>

record eta =
  getSpeed :: "rat option"
  getEtaS :: "int option"
  getDurationMs :: rat

record progress =
  getProgress :: rat
  getValue :: int
  getTotal :: int
  getTag :: "string option"
  getPayload :: "string \<rightharpoonup> string"
  getEta :: eta

type_synonym formatter = "string \<Rightarrow> progress \<Rightarrow> progress list \<Rightarrow> string"
type_synonym data_provider = "progress \<Rightarrow> progress list \<Rightarrow> string"

record bar_options =
  completeChar :: string
  resumeChar :: string
  width :: int
  glue :: string

text \<open>
  The fields of \<^verbatim>\<open>BarItem\<close>. \<open>userDataProviders\<close> is \<^verbatim>\<open>params.dataProviders\<close>;
  the table \<^verbatim>\<open>this.dataProviders\<close>, which puts them over the built-in providers, is
  the function \<open>dataProviders\<close> below.
\<close>

record bar_item =
  template :: string
  tagDelimiter :: string
  options :: bar_options
  formatters :: "string \<rightharpoonup> formatter"
  userDataProviders :: "string \<rightharpoonup> data_provider"
  progresses :: "progress list"

text \<open>
  The object that \<^verbatim>\<open>getBarParts\<close> returns, and the objects that \<^verbatim>\<open>renderBars\<close>
  sorts: a progress with its size in cells and its position in the list.
\<close>

record bar_parts =
  parts_done :: string
  parts_left :: string

record entry =
  entry_size :: int
  entry_item :: progress
  entry_index :: nat

section \<open>Bars\<close>

definition getBarParts :: "bar_item \<Rightarrow> int \<Rightarrow> progress \<Rightarrow> error + bar_parts" where
  "getBarParts b sz p =
     (case repeat (completeChar (options b)) sz of
        Inl e \<Rightarrow> Inl e
      | Inr d \<Rightarrow>
          (case repeat (resumeChar (options b)) (width (options b) - sz) of
             Inl e \<Rightarrow> Inl e
           | Inr l \<Rightarrow> Inr \<lparr>parts_done = d, parts_left = l\<rparr>))"

definition bar :: "bar_item \<Rightarrow> rat \<Rightarrow> progress \<Rightarrow> error + string" where
  "bar b dn p =
     (let sz = Math_round (times_double dn (of_int (width (options b))))
      in case getBarParts b sz p of
           Inl e \<Rightarrow> Inl e
         | Inr parts \<Rightarrow> Inr (parts_done parts @ glue (options b) @ parts_left parts))"

text \<open>The tag as a template literal prints it: an absent tag reads \<^verbatim>\<open>undefined\<close>.\<close>

definition tag_text :: "progress \<Rightarrow> string" where
  "tag_text p = (case getTag p of None \<Rightarrow> ''undefined'' | Some t \<Rightarrow> t)"

text \<open>
  The formatter of a segment. Both keys end in \<^verbatim>\<open>bar\<close>, which no key of
  \<^verbatim>\<open>Object.prototype\<close> does: only own entries are found.
\<close>

definition line_formatter :: "bar_item \<Rightarrow> progress \<Rightarrow> formatter option" where
  "line_formatter b itm =
     (case formatters b (tag_text itm @ tagDelimiter b @ ''bar'') of
        Some f \<Rightarrow> Some f
      | None \<Rightarrow> formatters b ''bar'')"

definition renderBarsLine :: "bar_item \<Rightarrow> int \<Rightarrow> progress \<Rightarrow> progress list \<Rightarrow> error + string" where
  "renderBarsLine b len itm ps =
     (case getBarParts b len itm of
        Inl e \<Rightarrow> Inl e
      | Inr parts \<Rightarrow>
          (let line = parts_done parts
           in Inr (case line_formatter b itm of Some f \<Rightarrow> f line itm ps | None \<Rightarrow> line)))"

definition sized :: "int \<Rightarrow> progress list \<Rightarrow> entry list" where
  "sized w ps =
     map (\<lambda>(itm, i). \<lparr>entry_size = Math_round (times_double (getProgress itm) (of_int w)),
                      entry_item = itm, entry_index = i\<rparr>)
         (zip ps [0 ..< length ps])"

definition by_size :: "entry \<Rightarrow> entry \<Rightarrow> int" where
  "by_size a c = Math_sign (entry_size a - entry_size c)"

text \<open>
  The \<^verbatim>\<open>reduce\<close> of \<^verbatim>\<open>renderBars\<close>: \<open>prev\<close> is the size of the accumulator (0 at
  the start, then the size of the entry before), \<open>lines\<close> the array the segments are
  pushed to.
\<close>

fun reduce_lines ::
  "bar_item \<Rightarrow> progress list \<Rightarrow> int \<Rightarrow> string list \<Rightarrow> entry list \<Rightarrow> error + (int \<times> string list)"
where
  "reduce_lines b ps prev lines [] = Inr (prev, lines)"
| "reduce_lines b ps prev lines (current # rest) =
     (let len = entry_size current - prev
      in if len > 0
         then (case renderBarsLine b len (entry_item current) ps of
                 Inl e \<Rightarrow> Inl e
               | Inr line \<Rightarrow> reduce_lines b ps (entry_size current) (lines @ [line]) rest)
         else reduce_lines b ps (entry_size current) lines rest)"

definition sorted_entries :: "bar_item \<Rightarrow> progress list \<Rightarrow> entry list" where
  "sorted_entries b ps = Array_sort by_size (sized (width (options b)) ps)"

definition renderBars_lines :: "bar_item \<Rightarrow> progress list \<Rightarrow> error + string list" where
  "renderBars_lines b ps =
     (let w = width (options b)
      in case reduce_lines b ps 0 [] (sorted_entries b ps) of
           Inl e \<Rightarrow> Inl e
         | Inr (leftLength, lines) \<Rightarrow>
             (if w - leftLength > 0
              then (case repeat (resumeChar (options b)) (w - leftLength) of
                      Inl e \<Rightarrow> Inl e
                    | Inr fill \<Rightarrow> Inr (lines @ [fill]))
              else Inr lines))"

definition renderBars :: "bar_item \<Rightarrow> progress list \<Rightarrow> error + string" where
  "renderBars b ps =
     (case renderBars_lines b ps of
        Inl e \<Rightarrow> Inl e
      | Inr lines \<Rightarrow> Inr (join (glue (options b)) lines))"

section \<open>Data providers\<close>

definition formatNumber :: "int option \<Rightarrow> string \<Rightarrow> string" where
  "formatNumber num sfx =
     (case num of None \<Rightarrow> ''NaN'' | Some n \<Rightarrow> Number_toString n @ sfx)"

text \<open>
  \<^verbatim>\<open>this.dataProviders\<close>: the providers given at construction come last in the
  object literal, so they replace a built-in provider of the same name; any other key
  is looked up on \<^verbatim>\<open>Object.prototype\<close>, and what is found there is called as a
  provider. A built-in provider can throw (through \<^verbatim>\<open>repeat\<close>); the caller's functions
  are taken as total.
\<close>

definition builtin_names :: "string list" where
  "builtin_names =
     [''bars'', ''bar'', ''speed'', ''eta'', ''value'', ''total'', ''percentage'', ''duration'']"

definition own_provider :: "bar_item \<Rightarrow> string \<Rightarrow> bool" where
  "own_provider b key = (userDataProviders b key \<noteq> None \<or> key \<in> set builtin_names)"

definition dataProviders ::
  "bar_item \<Rightarrow> string \<Rightarrow> (progress \<Rightarrow> progress list \<Rightarrow> error + jsval) option"
where
  "dataProviders b key =
     (case userDataProviders b key of
        Some f \<Rightarrow> Some (\<lambda>p ps. Inr (Str (f p ps)))
      | None \<Rightarrow>
          if key = ''bars'' then
            Some (\<lambda>p ps. case renderBars b ps of Inl e \<Rightarrow> Inl e | Inr s \<Rightarrow> Inr (Str s))
          else if key = ''bar'' then
            Some (\<lambda>p ps. case bar b (getProgress p) p of Inl e \<Rightarrow> Inl e | Inr s \<Rightarrow> Inr (Str s))
          else if key = ''speed'' then
            Some (\<lambda>p ps. Inr (Str (formatNumber
                    (map_option (\<lambda>s. Math_round (to_double s)) (getSpeed (getEta p))) ''/s'')))
          else if key = ''eta'' then
            Some (\<lambda>p ps. Inr (Str (formatNumber (getEtaS (getEta p)) ''s'')))
          else if key = ''value'' then Some (\<lambda>p ps. Inr (Str (Number_toString (getValue p))))
          else if key = ''total'' then Some (\<lambda>p ps. Inr (Str (Number_toString (getTotal p))))
          else if key = ''percentage'' then
            Some (\<lambda>p ps. Inr (Str (Number_toString
                    (Math_round (times_double (getProgress p) 100)) @ ''%'')))
          else if key = ''duration'' then
            Some (\<lambda>p ps. Inr (Str (Number_toString
                    (Math_round (divide_double (getDurationMs (getEta p)) 1000)) @ ''s'')))
          else
            (case Object_prototype key of
               Some m \<Rightarrow> Some (\<lambda>p ps. call_inherited m (own_provider b) Obj)
             | None \<Rightarrow> None))"

text \<open>\<^verbatim>\<open>payload[key]\<close>: an own entry, or what \<^verbatim>\<open>Object.prototype\<close> has under the key.\<close>

definition payload_lookup :: "progress \<Rightarrow> string \<Rightarrow> jsval option" where
  "payload_lookup itm key =
     (case getPayload itm key of Some s \<Rightarrow> Some (Str s) | None \<Rightarrow> Object_prototype key)"

text \<open>
  \<^verbatim>\<open>getDataValue\<close>: \<open>Inr None\<close> is the \<^verbatim>\<open>null\<close> of a property that the payload
  lookup does not find and that has no provider.
\<close>

definition getDataValue :: "bar_item \<Rightarrow> string \<Rightarrow> progress \<Rightarrow> error + jsval option" where
  "getDataValue b key itm =
     (case payload_lookup itm key of
        Some v \<Rightarrow> Inr (Some v)
      | None \<Rightarrow>
          (case dataProviders b key of
             Some f \<Rightarrow> (case f itm (progresses b) of Inl e \<Rightarrow> Inl e | Inr v \<Rightarrow> Inr (Some v))
           | None \<Rightarrow> Inr None))"

section \<open>Rendering a template\<close>

text \<open>
  The matches of the pattern \<^verbatim>\<open>/{([^{}]+)}/g\<close>, from left to right: a template is
  cut into the characters that \<^verbatim>\<open>replace\<close> copies and the placeholders it hands to
  the callback, each with the text between its braces.
\<close>

datatype token = Lit char | Placeholder string

definition not_brace :: "char \<Rightarrow> bool" where
  "not_brace c = (c \<noteq> CHR ''{'' \<and> c \<noteq> CHR ''}'')"

function tokens :: "string \<Rightarrow> token list" where
  "tokens [] = []"
| "tokens (c # cs) =
     (let prop = takeWhile not_brace cs; rest = dropWhile not_brace cs
      in if c = CHR ''{'' \<and> prop \<noteq> [] \<and> rest \<noteq> [] \<and> hd rest = CHR ''}''
         then Placeholder prop # tokens (tl rest)
         else Lit c # tokens cs)"
  by pat_completeness auto
termination
proof (relation "measure length")
  fix c :: char and cs x xa
  assume "xa = dropWhile not_brace cs"
  then have "length (tl xa) \<le> length cs"
    using length_dropWhile_le [of not_brace cs] by simp
  then show "(tl xa, c # cs) \<in> measure length" by simp
qed simp_all

text \<open>
  \<^verbatim>\<open>const [property, tag] = prop.split(this.tagDelimiter).reverse()\<close>: the property
  is the last piece and the tag the piece before it, absent when there is one piece
  only. The pattern captures at least one character, so the list of pieces is not empty.
\<close>

definition property_tag :: "string \<Rightarrow> string \<Rightarrow> string \<times> string option" where
  "property_tag sep prop =
     (case rev (split prop sep) of
        [] \<Rightarrow> (''undefined'', None)
      | [property] \<Rightarrow> (property, None)
      | property # tag # _ \<Rightarrow> (property, Some tag))"

text \<open>The test \<^verbatim>\<open>tag ? ... : ...\<close>: an absent tag and an empty one are both falsy.\<close>

definition truthy :: "string option \<Rightarrow> bool" where
  "truthy tag = (case tag of None \<Rightarrow> False | Some t \<Rightarrow> t \<noteq> [])"

text \<open>
  The closure that \<^verbatim>\<open>getCounterByProperty(max)\<close> returns, applied to \<open>key\<close>; its
  \<^verbatim>\<open>Map\<close> is passed in and returned updated.
\<close>

definition getCounterByProperty ::
  "nat \<Rightarrow> (string \<rightharpoonup> nat) \<Rightarrow> string \<Rightarrow> int \<times> (string \<rightharpoonup> nat)"
where
  "getCounterByProperty mx m key =
     (let index = (case m key of None \<Rightarrow> 0 | Some i \<Rightarrow> i);
          m' = m(key \<mapsto> index + 1)
      in (if index \<ge> mx then - 1 else int index, m'))"

text \<open>The index a placeholder resolves to (lines 69 to 72 of the callback).\<close>

definition placeholder_index ::
  "bar_item \<Rightarrow> (string \<rightharpoonup> nat) \<Rightarrow> string \<Rightarrow> int \<times> (string \<rightharpoonup> nat)"
where
  "placeholder_index b m prop =
     (let (property, tag) = property_tag (tagDelimiter b) prop
      in if truthy tag
         then (findIndex (\<lambda>p. getTag p = tag) (progresses b), m)
         else getCounterByProperty (length (progresses b)) m property)"

text \<open>
  \<^verbatim>\<open>this.formatters[prop]\<close> as a function of the value: an own entry, which reads its
  first argument as a string, or what \<^verbatim>\<open>Object.prototype\<close> has under the key, called
  as a formatter.
\<close>

definition formatter_for ::
  "bar_item \<Rightarrow> string \<Rightarrow> (jsval \<Rightarrow> progress \<Rightarrow> progress list \<Rightarrow> error + jsval) option"
where
  "formatter_for b prop =
     (case formatters b prop of
        Some f \<Rightarrow> Some (\<lambda>v p ps. Inr (Str (f (String_of v) p ps)))
      | None \<Rightarrow>
          (case Object_prototype prop of
             Some m \<Rightarrow> Some (\<lambda>v p ps. call_inherited m (\<lambda>k. formatters b k \<noteq> None) v)
           | None \<Rightarrow> None))"

text \<open>
  Lines 79 to 82 of the callback: the value, through the formatter found under the whole
  text of the placeholder if there is one, as the string that \<^verbatim>\<open>replace\<close> inserts.
\<close>

definition formatted :: "bar_item \<Rightarrow> string \<Rightarrow> progress \<Rightarrow> jsval \<Rightarrow> error + string" where
  "formatted b prop progress v =
     (case formatter_for b prop of
        Some f \<Rightarrow>
          (case f v progress (progresses b) of Inl e \<Rightarrow> Inl e | Inr r \<Rightarrow> Inr (String_of r))
      | None \<Rightarrow> Inr (String_of v))"

text \<open>
  The text that replaces a placeholder once its index is known (lines 73 to 82 of the
  callback).
\<close>

definition substitute :: "bar_item \<Rightarrow> string \<Rightarrow> int \<Rightarrow> error + string" where
  "substitute b prop index =
     (let match = ''{'' @ prop @ ''}'';
          property = fst (property_tag (tagDelimiter b) prop)
      in if index < 0 then Inr match
         else
           (let progress = progresses b ! nat index
            in case getDataValue b property progress of
                 Inl e \<Rightarrow> Inl e
               | Inr None \<Rightarrow> Inr match
               | Inr (Some v) \<Rightarrow> formatted b prop progress v))"

text \<open>The callback of \<^verbatim>\<open>replace\<close>: the replacement text and the counters after it.\<close>

definition replacer ::
  "bar_item \<Rightarrow> (string \<rightharpoonup> nat) \<Rightarrow> string \<Rightarrow> error + (string \<times> (string \<rightharpoonup> nat))"
where
  "replacer b m prop =
     (let (index, m') = placeholder_index b m prop
      in case substitute b prop index of
           Inl e \<Rightarrow> Inl e
         | Inr s \<Rightarrow> Inr (s, m'))"

fun replace_tokens :: "bar_item \<Rightarrow> (string \<rightharpoonup> nat) \<Rightarrow> token list \<Rightarrow> error + string" where
  "replace_tokens b m [] = Inr []"
| "replace_tokens b m (Lit c # ts) =
     (case replace_tokens b m ts of Inl e \<Rightarrow> Inl e | Inr r \<Rightarrow> Inr (c # r))"
| "replace_tokens b m (Placeholder prop # ts) =
     (case replacer b m prop of
        Inl e \<Rightarrow> Inl e
      | Inr (s, m') \<Rightarrow>
          (case replace_tokens b m' ts of Inl e \<Rightarrow> Inl e | Inr r \<Rightarrow> Inr (s @ r)))"

definition render :: "bar_item \<Rightarrow> error + string" where
  "render b = replace_tokens b Map.empty (tokens (template b))"

section \<open>Construction\<close>

record partial_options =
  opt_completeChar :: "string option"
  opt_resumeChar :: "string option"
  opt_width :: "int option"
  opt_glue :: "string option"

record params =
  par_tagDelimiter :: "string option"
  par_template :: "string option"
  par_options :: "partial_options option"
  par_formatters :: "(string \<rightharpoonup> formatter) option"
  par_dataProviders :: "(string \<rightharpoonup> data_provider) option"

definition no_params :: params where
  "no_params = \<lparr>par_tagDelimiter = None, par_template = None, par_options = None,
                 par_formatters = None, par_dataProviders = None\<rparr>"

definition default_options :: bar_options where
  "default_options = \<lparr>completeChar = ''='', resumeChar = ''-'', width = 40, glue = ''''\<rparr>"

definition merge_options :: "bar_options \<Rightarrow> partial_options option \<Rightarrow> bar_options" where
  "merge_options d po =
     (case po of
        None \<Rightarrow> d
      | Some o' \<Rightarrow>
          \<lparr>completeChar = (case opt_completeChar o' of None \<Rightarrow> completeChar d | Some v \<Rightarrow> v),
           resumeChar = (case opt_resumeChar o' of None \<Rightarrow> resumeChar d | Some v \<Rightarrow> v),
           width = (case opt_width o' of None \<Rightarrow> width d | Some v \<Rightarrow> v),
           glue = (case opt_glue o' of None \<Rightarrow> glue d | Some v \<Rightarrow> v)\<rparr>)"

definition getDefaultTemplate :: "progress list \<Rightarrow> string" where
  "getDefaultTemplate ps =
     (if length ps > 1
      then ''[{bars}] '' @ join ''/'' (map (\<lambda>_. ''{percentage}'') ps)
           @ '' ETA: '' @ join ''/'' (map (\<lambda>_. ''{eta}'') ps)
           @ '' speed: '' @ join ''/'' (map (\<lambda>_. ''{speed}'') ps)
           @ '' duration: '' @ join ''/'' (map (\<lambda>_. ''{duration}'') ps)
           @ '' '' @ join '' '' (map (\<lambda>_. ''{value}/{total}'') ps)
      else ''[{bar}] {percentage} ETA: {eta} speed: {speed} duration: {duration} {value}/{total}'')"

definition BarItem :: "progress list \<Rightarrow> params \<Rightarrow> bar_item" where
  "BarItem ps par =
     \<lparr>template = (case par_template par of None \<Rightarrow> getDefaultTemplate ps | Some t \<Rightarrow> t),
      tagDelimiter = (case par_tagDelimiter par of None \<Rightarrow> ''_'' | Some d \<Rightarrow> d),
      options = merge_options default_options (par_options par),
      formatters = (case par_formatters par of None \<Rightarrow> Map.empty | Some f \<Rightarrow> f),
      userDataProviders = (case par_dataProviders par of None \<Rightarrow> Map.empty | Some f \<Rightarrow> f),
      progresses = ps\<rparr>"

section \<open>What the combined bar emits\<close>

text \<open>
  The segments of the walk over the sorted entries, as the specification words them:
  an entry whose size exceeds the size before it yields a segment of the difference for
  its item, any other entry yields nothing, and the size before the next entry is the
  size of this one.
\<close>

fun segments :: "int \<Rightarrow> entry list \<Rightarrow> (int \<times> entry) list" where
  "segments prev [] = []"
| "segments prev (e # es) =
     (if entry_size e - prev > 0
      then (entry_size e - prev, e) # segments (entry_size e) es
      else segments (entry_size e) es)"

text \<open>The results of a list of computations, or the first error among them.\<close>

fun collect :: "(error + 'a) list \<Rightarrow> error + 'a list" where
  "collect [] = Inr []"
| "collect (x # xs) =
     (case x of
        Inl e \<Rightarrow> Inl e
      | Inr v \<Rightarrow> (case collect xs of Inl e \<Rightarrow> Inl e | Inr vs \<Rightarrow> Inr (v # vs)))"

text \<open>The text of one segment: the fill, passed through the formatter of its item.\<close>

definition segment_text :: "bar_item \<Rightarrow> progress list \<Rightarrow> int \<times> entry \<Rightarrow> string" where
  "segment_text b ps seg =
     (let line = concat (replicate (nat (fst seg)) (completeChar (options b)))
      in case line_formatter b (entry_item (snd seg)) of
           Some f \<Rightarrow> f line (entry_item (snd seg)) ps
         | None \<Rightarrow> line)"

text \<open>The size the walk ends with: of the last sorted entry, 0 when there is none.\<close>

definition leftLength :: "bar_item \<Rightarrow> progress list \<Rightarrow> int" where
  "leftLength b ps = last (0 # map entry_size (sorted_entries b ps))"


section \<open>Placeholders in template order\<close>

text \<open>The texts of the placeholders of a template, in the order of the template.\<close>

fun placeholders :: "token list \<Rightarrow> string list" where
  "placeholders [] = []"
| "placeholders (Lit c # ts) = placeholders ts"
| "placeholders (Placeholder prop # ts) = prop # placeholders ts"

text \<open>
  The indices that the successive calls of the callback resolve, from the counters \<open>m\<close>.
\<close>

fun index_trace :: "bar_item \<Rightarrow> (string \<rightharpoonup> nat) \<Rightarrow> string list \<Rightarrow> int list" where
  "index_trace b m [] = []"
| "index_trace b m (prop # props) =
     (case placeholder_index b m prop of (i, m') \<Rightarrow> i # index_trace b m' props)"

text \<open>The rendered template, from the tokens and the index of each placeholder.\<close>

fun assemble :: "bar_item \<Rightarrow> token list \<Rightarrow> int list \<Rightarrow> error + string" where
  "assemble b [] is = Inr []"
| "assemble b (Lit c # ts) is =
     (case assemble b ts is of Inl e \<Rightarrow> Inl e | Inr r \<Rightarrow> Inr (c # r))"
| "assemble b (Placeholder prop # ts) [] = Inr []"
| "assemble b (Placeholder prop # ts) (i # is) =
     (case substitute b prop i of
        Inl e \<Rightarrow> Inl e
      | Inr s \<Rightarrow> (case assemble b ts is of Inl e \<Rightarrow> Inl e | Inr r \<Rightarrow> Inr (s @ r)))"

text \<open>
  A placeholder is untagged when the callback reads no tag, or an empty one, in it; its
  property is the last piece of its text.
\<close>

definition untagged :: "string \<Rightarrow> string \<Rightarrow> bool" where
  "untagged sep prop = (\<not> truthy (snd (property_tag sep prop)))"

definition property_of :: "string \<Rightarrow> string \<Rightarrow> string" where
  "property_of sep prop = fst (property_tag sep prop)"

text \<open>The number of untagged occurrences of a property among the placeholders \<open>props\<close>.\<close>

definition occurrences :: "string \<Rightarrow> string \<Rightarrow> string list \<Rightarrow> nat" where
  "occurrences sep property props =
     length (filter (\<lambda>q. untagged sep q \<and> property_of sep q = property) props)"

text \<open>The counters after the placeholders \<open>seen\<close>.\<close>

definition counter_of :: "string \<Rightarrow> string list \<Rightarrow> (string \<rightharpoonup> nat)" where
  "counter_of sep seen =
     (\<lambda>k. if occurrences sep k seen = 0 then None else Some (occurrences sep k seen))"

text \<open>
  The index of a placeholder that comes after the placeholders \<open>seen\<close>: an untagged
  one takes the number of earlier untagged occurrences of its property, or -1 once that
  number is not below the length of the progress list; a tagged one the position of its tag.
\<close>

definition positional_index :: "bar_item \<Rightarrow> string list \<Rightarrow> string \<Rightarrow> int" where
  "positional_index b seen prop =
     (if untagged (tagDelimiter b) prop
      then (let n = occurrences (tagDelimiter b) (property_of (tagDelimiter b) prop) seen
            in if n < length (progresses b) then int n else - 1)
      else findIndex (\<lambda>p. getTag p = snd (property_tag (tagDelimiter b) prop)) (progresses b))"

section \<open>Rendering again\<close>

text \<open>
  Modelled from the spec: \<^verbatim>\<open>Eta.getDurationMs\<close>, whose source is not among the files
  embedded here, is the time elapsed since the progress was constructed. \<open>at_time t p\<close>
  is the progress \<open>p\<close> as it reads \<open>t\<close> milliseconds after its construction, nothing
  else having changed.
\<close>

definition at_time :: "rat \<Rightarrow> progress \<Rightarrow> progress" where
  "at_time t p = p\<lparr>getEta := (getEta p)\<lparr>getDurationMs := t\<rparr>\<rparr>"

text \<open>
  Two readings of a progress between which it was not incremented: they agree on
  everything but the readings of the ETA calculator, which follow the clock.
\<close>

definition same_state :: "progress \<Rightarrow> progress \<Rightarrow> bool" where
  "same_state p p' =
     (getProgress p' = getProgress p \<and> getValue p' = getValue p \<and> getTotal p' = getTotal p
      \<and> getTag p' = getTag p \<and> getPayload p' = getPayload p)"

text \<open>The formatters and providers given at construction do not read the ETA calculator.\<close>

definition eta_blind :: "bar_item \<Rightarrow> bool" where
  "eta_blind b =
     ((\<forall>f\<in>ran (formatters b). \<forall>s p p' ps ps'.
          same_state p p' \<and> list_all2 same_state ps ps' \<longrightarrow> f s p' ps' = f s p ps)
      \<and> (\<forall>g\<in>ran (userDataProviders b). \<forall>p p' ps ps'.
          same_state p p' \<and> list_all2 same_state ps ps' \<longrightarrow> g p' ps' = g p ps))"

text \<open>No placeholder of the template asks for the speed, the ETA or the duration.\<close>

definition clock_free :: "bar_item \<Rightarrow> bool" where
  "clock_free b =
     list_all (\<lambda>q. property_of (tagDelimiter b) q \<notin> {''speed'', ''eta'', ''duration''})
       (placeholders (tokens (template b)))"

text \<open>Entries, and items, that differ in the readings of the ETA calculator at most.\<close>

definition same_entry :: "entry \<Rightarrow> entry \<Rightarrow> bool" where
  "same_entry e e' =
     (entry_size e' = entry_size e \<and> entry_index e' = entry_index e
      \<and> same_state (entry_item e) (entry_item e'))"

definition same_config :: "bar_item \<Rightarrow> bar_item \<Rightarrow> bool" where
  "same_config b b' =
     (template b' = template b \<and> tagDelimiter b' = tagDelimiter b \<and> options b' = options b
      \<and> formatters b' = formatters b \<and> userDataProviders b' = userDataProviders b)"

section \<open>Sample items\<close>

text \<open>A progress out of 1000 units, with no ETA readings yet.\<close>

definition sample_progress ::
  "rat \<Rightarrow> int \<Rightarrow> string option \<Rightarrow> (string \<rightharpoonup> string) \<Rightarrow> progress"
where
  "sample_progress r v t pl =
     \<lparr>getProgress = r, getValue = v, getTotal = 1000, getTag = t, getPayload = pl,
      getEta = \<lparr>getSpeed = None, getEtaS = None, getDurationMs = 0\<rparr>\<rparr>"

definition with_template :: "string \<Rightarrow> params" where
  "with_template t = no_params\<lparr>par_template := Some t\<rparr>"

definition with_width :: "int \<Rightarrow> string \<Rightarrow> params" where
  "with_width w g =
     no_params\<lparr>par_options := Some \<lparr>opt_completeChar = None, opt_resumeChar = None,
                                      opt_width = Some w, opt_glue = Some g\<rparr>\<rparr>"

text \<open>One progress tagged \<open>a\<close>, at 300 of 1000 units, under a given template.\<close>

definition single_item :: "string \<Rightarrow> bar_item" where
  "single_item t = BarItem [sample_progress (3 / 10) 300 (Some ''a'') Map.empty] (with_template t)"

text \<open>Two progresses, at 100 and 200 of 1000 units: untagged, and tagged \<open>a\<close> and \<open>b\<close>.\<close>

definition two_items :: "string \<Rightarrow> bar_item" where
  "two_items t =
     BarItem [sample_progress (1 / 10) 100 None Map.empty,
              sample_progress (1 / 5) 200 None Map.empty] (with_template t)"

definition tagged_items :: "string \<Rightarrow> bar_item" where
  "tagged_items t =
     BarItem [sample_progress (1 / 10) 100 (Some ''a'') Map.empty,
              sample_progress (1 / 5) 200 (Some ''b'') Map.empty] (with_template t)"

text \<open>Two progresses whose tags are \<open>b\<close> and \<open>a_b\<close>, at 200 and 700 of 1000 units.\<close>

definition underscore_items :: "string \<Rightarrow> bar_item" where
  "underscore_items t =
     BarItem [sample_progress (1 / 5) 200 (Some ''b'') Map.empty,
              sample_progress (7 / 10) 700 (Some ''a_b'') Map.empty] (with_template t)"

lemmas sample_defs = sample_progress_def BarItem_def with_template_def with_width_def no_params_def
  merge_options_def default_options_def

lemmas render_defs = render_def replacer_def placeholder_index_def property_tag_def split_def
  truthy_def getCounterByProperty_def substitute_def getDataValue_def dataProviders_def not_brace_def
  payload_lookup_def Object_prototype_def formatted_def formatter_for_def String_of_def
  call_inherited_def Number_toString_def nat_digits.simps Let_def numeral_2_eq_2

text \<open>Four progresses at 80, 20, 50 and 50 percent, on a bar of 10 cells glued by a stroke.\<close>

definition sample_list :: "progress list" where
  "sample_list =
     [sample_progress (4 / 5) 800 (Some ''a'') Map.empty,
      sample_progress (1 / 5) 200 (Some ''b'') Map.empty,
      sample_progress (1 / 2) 500 (Some ''c'') Map.empty,
      sample_progress (1 / 2) 500 (Some ''d'') Map.empty]"

definition sample_bars :: bar_item where
  "sample_bars = BarItem sample_list (with_width 10 ''|'')"

text \<open>One progress, complete, on a bar of 4 cells whose fill for the part done is two characters long.\<close>

definition two_char_fill :: bar_item where
  "two_char_fill =
     BarItem [sample_progress 1 1000 None Map.empty]
       (no_params\<lparr>par_options := Some \<lparr>opt_completeChar = Some ''ab'', opt_resumeChar = None,
                                        opt_width = Some 4, opt_glue = None\<rparr>\<rparr>)"

lemmas bars_defs = sorted_entries_def Array_sort_def sized_def
  by_size_def Math_sign_def renderBars_def renderBars_lines_def renderBarsLine_def
  getBarParts_def repeat_def line_formatter_def tag_text_def leftLength_def

section \<open>Arithmetic of sizes\<close>

lemma round_half_even_le: "y \<le> of_int N \<Longrightarrow> round_half_even y \<le> N"
proof -
  assume le: "y \<le> of_int N"
  then have f: "\<lfloor>y\<rfloor> \<le> N" by (simp add: floor_le_iff)
  show ?thesis
  proof (cases "\<lfloor>y\<rfloor> = N")
    case True
    then have "of_int N \<le> y" by (metis of_int_floor_le)
    then have "y - of_int \<lfloor>y\<rfloor> = 0" using le True by simp
    then show ?thesis using True by (simp add: round_half_even_def Let_def)
  next
    case False
    then have "\<lfloor>y\<rfloor> + 1 \<le> N" using f by simp
    then show ?thesis using f by (simp add: round_half_even_def Let_def)
  qed
qed

lemma round_half_even_ge: "of_int N \<le> y \<Longrightarrow> N \<le> round_half_even y"
proof -
  assume "of_int N \<le> y"
  then have "N \<le> \<lfloor>y\<rfloor>" by (simp add: le_floor_iff)
  then show ?thesis by (simp add: round_half_even_def Let_def)
qed

lemma floor_log2_small:
  assumes "0 < x" and "x < 2 ^ 53"
  shows "floor_log2 x \<le> 52"
proof (cases "1 \<le> x")
  case True
  have "\<lfloor>x\<rfloor> < 2 ^ 53"
    using assms(2) by (simp add: floor_less_iff)
  then have "bitlen \<lfloor>x\<rfloor> \<le> 53"
    using bitlen_le_iff_power [of "\<lfloor>x\<rfloor>" 53] by simp
  then show ?thesis using True by (simp add: floor_log2_def)
next
  case False
  then show ?thesis
    using bitlen_nonneg [of "\<lceil>1 / x\<rceil> - 1"] by (simp add: floor_log2_def)
qed

text \<open>Rounding to a double does not cross an integer below \<open>2 ^ 53\<close>.\<close>

lemma to_double_between:
  assumes "of_int m \<le> x" and "x \<le> of_int n" and "0 \<le> m" and "n < 2 ^ 53"
  shows "of_int m \<le> to_double x \<and> to_double x \<le> of_int n"
proof (cases "x = 0")
  case True
  then show ?thesis using assms by (simp add: to_double_def)
next
  case False
  have "(0::rat) \<le> of_int m" using assms(3) by simp
  then have "0 \<le> x" using assms(1) by simp
  then have pos: "0 < x" using False by simp
  have "x < 2 ^ 53"
  proof -
    have "(of_int n :: rat) < of_int (2 ^ 53)" using assms(4) by (simp only: of_int_less_iff)
    then show ?thesis using assms(2) by simp
  qed
  then have "floor_log2 \<bar>x\<bar> \<le> 52" using pos floor_log2_small [of x] by simp
  then have j: "ulp_exponent x \<le> 0" by (simp add: ulp_exponent_def)
  define c where "c = (2::int) ^ nat (- ulp_exponent x)"
  have q: "pow2 (ulp_exponent x) = 1 / of_int c"
  proof (cases "ulp_exponent x = 0")
    case True
    then show ?thesis by (simp add: pow2_def c_def)
  next
    case False
    then show ?thesis using j by (simp add: pow2_def c_def)
  qed
  have cpos: "0 < c" by (simp add: c_def)
  have lo: "of_int (m * c) \<le> x / pow2 (ulp_exponent x)"
    using assms(1) cpos by (simp add: q mult_right_mono)
  have hi: "x / pow2 (ulp_exponent x) \<le> of_int (n * c)"
    using assms(2) cpos by (simp add: q mult_right_mono)
  have r1: "m * c \<le> round_half_even (x / pow2 (ulp_exponent x))"
    using lo by (rule round_half_even_ge)
  have r2: "round_half_even (x / pow2 (ulp_exponent x)) \<le> n * c"
    using hi by (rule round_half_even_le)
  have cq: "(0::rat) < of_int c" using cpos by simp
  have td: "to_double x = of_int (round_half_even (x / pow2 (ulp_exponent x))) / of_int c"
    using False by (simp add: to_double_def q)
  have "(of_int (m * c) :: rat) \<le> of_int (round_half_even (x / pow2 (ulp_exponent x)))"
    using r1 by (simp only: of_int_le_iff)
  then have a: "of_int m \<le> to_double x"
    using cq by (simp add: td pos_le_divide_eq)
  have "(of_int (round_half_even (x / pow2 (ulp_exponent x))) :: rat) \<le> of_int (n * c)"
    using r2 by (simp only: of_int_le_iff)
  then have b: "to_double x \<le> of_int n"
    using cq by (simp add: td pos_divide_le_eq)
  show ?thesis using a b by simp
qed

lemma to_double_int:
  assumes "0 \<le> n" and "n < 2 ^ 53"
  shows "to_double (of_int n) = of_int n"
  using to_double_between [of n "of_int n" n] assms by simp

lemma times_double_bounds:
  assumes "0 \<le> k" and "k \<le> 1" and "0 \<le> w" and "w < 2 ^ 53"
  shows "0 \<le> times_double k (of_int w) \<and> times_double k (of_int w) \<le> of_int w"
proof -
  have k: "0 \<le> to_double k \<and> to_double k \<le> 1"
    using to_double_between [of 0 k 1] assms(1,2) by simp
  have w: "to_double (of_int w) = of_int w" using assms(3,4) by (rule to_double_int)
  have w0: "(0::rat) \<le> of_int w" using assms(3) by simp
  have lo: "0 \<le> to_double k * of_int w" using k w0 by simp
  have hi: "to_double k * of_int w \<le> of_int w"
    using mult_right_mono [of "to_double k" 1 "of_int w"] k w0 by simp
  show ?thesis
    using to_double_between [of 0 "to_double k * of_int w" w] lo hi assms(3,4)
    by (simp add: times_double_def w)
qed

lemma Math_round_bounds:
  assumes "0 \<le> k" "k \<le> 1" "0 \<le> w" "w < 2 ^ 53"
  shows "0 \<le> Math_round (times_double k (of_int w))"
    and "Math_round (times_double k (of_int w)) \<le> w"
proof -
  let ?x = "times_double k (of_int w)"
  have lo: "0 \<le> ?x" and hi: "?x \<le> of_int w"
    using times_double_bounds [OF assms] by simp_all
  show "0 \<le> Math_round ?x" unfolding Math_round_def using lo by simp
  have "?x + 1 / 2 < of_int (w + 1)" using hi by simp
  then have "\<lfloor>?x + 1 / 2\<rfloor> < w + 1" by (simp only: floor_less_iff)
  then show "Math_round ?x \<le> w" unfolding Math_round_def by simp
qed

text \<open>Sizes of the sample items, computed from the definitions.\<close>

lemma sizes_eval:
  "Math_round (times_double (3 / 10) 10) = 3"
  "Math_round (times_double (29 / 200) 100) = 14"
  "Math_round (times_double (3 / 2) 40) = 60"
  "Math_round (times_double (4 / 5) 10) = 8"
  "Math_round (times_double (1 / 5) 10) = 2"
  "Math_round (times_double (1 / 2) 10) = 5"
  "Math_round (times_double 1 4) = 4"
  "Math_round (times_double (3 / 10) 40) = 12"
  "Math_round (times_double (3 / 10) 100) = 30"
  "Math_round (divide_double 400 1000) = 0"
  "Math_round (divide_double 1600 1000) = 2"
  by code_simp+

lemma repeat_ok: "0 \<le> n \<Longrightarrow> repeat s n = Inr (concat (replicate (nat n) s))"
  by (simp add: repeat_def)

lemma replicate_numeral: "replicate (numeral k) x = x # replicate (pred_numeral k) x"
  by (simp add: numeral_eq_Suc)

lemma getBarParts_ok:
  "0 \<le> sz \<Longrightarrow> sz \<le> width (options b) \<Longrightarrow>
   getBarParts b sz p =
     Inr \<lparr>parts_done = concat (replicate (nat sz) (completeChar (options b))),
          parts_left = concat (replicate (nat (width (options b) - sz)) (resumeChar (options b)))\<rparr>"
  by (simp add: getBarParts_def repeat_ok)

section \<open>The single bar\<close>

text \<open>
  C3. For a progress whose ratio lies between 0 and 1, on a bar whose width is a
  non-negative integer below \<open>2 ^ 53\<close>, the built-in \<^verbatim>\<open>bar\<close> provider returns
  \<^verbatim>\<open>completeChar\<close> repeated \<open>round (ratio * width)\<close> times, then the glue, then
  \<^verbatim>\<open>resumeChar\<close> repeated \<open>width - round (ratio * width)\<close> times, the product being
  the product of doubles that the code rounds.
\<close>

theorem bar_provider_within_unit:
  assumes "0 \<le> getProgress p" and "getProgress p \<le> 1"
    and "0 \<le> width (options b)" and "width (options b) < 2 ^ 53"
    and "userDataProviders b ''bar'' = None"
  shows "\<exists>f. dataProviders b ''bar'' = Some f \<and>
           f p ps = Inr (Str
             (concat (replicate
                       (nat (Math_round (times_double (getProgress p) (of_int (width (options b))))))
                       (completeChar (options b)))
              @ glue (options b)
              @ concat (replicate
                         (nat (width (options b)
                               - Math_round (times_double (getProgress p) (of_int (width (options b))))))
                         (resumeChar (options b)))))"
proof -
  let ?sz = "Math_round (times_double (getProgress p) (of_int (width (options b))))"
  have "0 \<le> ?sz" and "?sz \<le> width (options b)"
    using Math_round_bounds [OF assms(1) assms(2) assms(3) assms(4)] by simp_all
  then have "bar b (getProgress p) p =
      Inr (concat (replicate (nat ?sz) (completeChar (options b))) @ glue (options b)
           @ concat (replicate (nat (width (options b) - ?sz)) (resumeChar (options b))))"
    by (simp add: bar_def getBarParts_ok)
  then show ?thesis using assms(5) by (simp add: dataProviders_def)
qed

theorem bar_provider_within_unit_witness:
  "0 \<le> getProgress (sample_progress (3 / 10) 300 None Map.empty)
   \<and> getProgress (sample_progress (3 / 10) 300 None Map.empty) \<le> 1
   \<and> 0 \<le> width (options (BarItem [] (with_width 10 ''|'')))
   \<and> width (options (BarItem [] (with_width 10 ''|''))) < 2 ^ 53
   \<and> userDataProviders (BarItem [] (with_width 10 ''|'')) ''bar'' = None
   \<and> (\<exists>f. dataProviders (BarItem [] (with_width 10 ''|'')) ''bar'' = Some f
          \<and> f (sample_progress (3 / 10) 300 None Map.empty) [] = Inr (Str ''===|-------''))
   \<and> Math_round (times_double (29 / 200) 100) = 14"
  using bar_provider_within_unit
          [of "sample_progress (3 / 10) 300 None Map.empty" "BarItem [] (with_width 10 ''|'')" "[]"]
  by (simp add: sample_defs sizes_eval replicate_numeral)

text \<open>
  C2. The single bar has no guard: a ratio above 1 makes the size exceed the width, the
  left fill is asked for a negative number of repetitions, and the rendering ends in a
  \<^verbatim>\<open>RangeError\<close>. Here a progress at 1500 of 1000 units on the default bar of 40
  cells: the size is 60 and the left fill is asked -20 times.
\<close>

theorem bar_overshoot_raises:
  "Math_round (times_double (getProgress (sample_progress (3 / 2) 1500 None Map.empty))
       (of_int (width (options (BarItem [sample_progress (3 / 2) 1500 None Map.empty] no_params)))))
     = 60
   \<and> bar (BarItem [sample_progress (3 / 2) 1500 None Map.empty] no_params) (3 / 2)
          (sample_progress (3 / 2) 1500 None Map.empty) = Inl RangeError
   \<and> render (BarItem [sample_progress (3 / 2) 1500 None Map.empty] (with_template ''{bar}''))
       = Inl RangeError"
  by (simp add: sample_defs render_defs sizes_eval bar_def getBarParts_def repeat_def)

section \<open>Resolving one placeholder\<close>

lemma findIndex_none: "(\<forall>x\<in>set xs. \<not> P x) \<Longrightarrow> findIndex P xs = - 1"
  by (induction xs) simp_all

lemma findIndex_range: "- 1 \<le> findIndex P xs \<and> findIndex P xs < int (length xs)"
  by (induction xs) (simp_all add: Let_def)

lemma findIndex_found:
  "0 \<le> findIndex P xs \<Longrightarrow>
   P (xs ! nat (findIndex P xs)) \<and> (\<forall>j < nat (findIndex P xs). \<not> P (xs ! j))"
proof (induction xs)
  case Nil
  then show ?case by simp
next
  case (Cons x xs)
  show ?case
  proof (cases "P x")
    case True
    then show ?thesis by simp
  next
    case False
    with Cons.prems have nn: "0 \<le> findIndex P xs"
      by (simp add: Let_def split: if_splits)
    then have eq: "findIndex P (x # xs) = findIndex P xs + 1"
      using False by (simp add: Let_def)
    have n: "nat (findIndex P xs + 1) = Suc (nat (findIndex P xs))" using nn by simp
    have ih: "P (xs ! nat (findIndex P xs))" "\<forall>j < nat (findIndex P xs). \<not> P (xs ! j)"
      using Cons.IH [OF nn] by simp_all
    have "P ((x # xs) ! Suc (nat (findIndex P xs)))" using ih(1) by simp
    moreover have "\<forall>j < Suc (nat (findIndex P xs)). \<not> P ((x # xs) ! j)"
      using ih(2) False by (simp add: less_Suc_eq_0_disj) auto
    ultimately show ?thesis unfolding eq n by blast
  qed
qed

text \<open>
  C7. Once a placeholder has resolved to the progress at index \<open>i\<close>, the replacement
  is that progress's payload entry for the property when there is one, and the data
  provider of the property is consulted only when the payload lookup finds nothing (a
  property with neither keeps the placeholder); the formatter found under the whole
  bracket key, if any, is then applied. A payload entry under a formatter of the
  caller's is the formatter's result, and without a formatter it is the entry itself.
\<close>

theorem payload_before_provider:
  assumes "placeholder_index b m prop = (i, m')" and "0 \<le> i"
  shows "replacer b m prop =
    (case getPayload (progresses b ! nat i) (fst (property_tag (tagDelimiter b) prop)) of
       Some s \<Rightarrow>
         (case formatted b prop (progresses b ! nat i) (Str s) of
            Inl e \<Rightarrow> Inl e
          | Inr t \<Rightarrow> Inr (t, m'))
     | None \<Rightarrow>
         (case Object_prototype (fst (property_tag (tagDelimiter b) prop)) of
            Some inherited \<Rightarrow>
              (case formatted b prop (progresses b ! nat i) inherited of
                 Inl e \<Rightarrow> Inl e
               | Inr t \<Rightarrow> Inr (t, m'))
          | None \<Rightarrow>
              (case dataProviders b (fst (property_tag (tagDelimiter b) prop)) of
                 None \<Rightarrow> Inr (''{'' @ prop @ ''}'', m')
               | Some g \<Rightarrow>
                   (case g (progresses b ! nat i) (progresses b) of
                      Inl e \<Rightarrow> Inl e
                    | Inr v \<Rightarrow>
                        (case formatted b prop (progresses b ! nat i) v of
                           Inl e \<Rightarrow> Inl e
                         | Inr t \<Rightarrow> Inr (t, m'))))))
    \<and> (\<forall>f s. formatters b prop = Some f \<longrightarrow>
          formatted b prop (progresses b ! nat i) (Str s)
          = Inr (f s (progresses b ! nat i) (progresses b)))
    \<and> (\<forall>s. formatters b prop = None \<and> Object_prototype prop = None \<longrightarrow>
          formatted b prop (progresses b ! nat i) (Str s) = Inr s)"
proof -
  have "replacer b m prop =
    (case getPayload (progresses b ! nat i) (fst (property_tag (tagDelimiter b) prop)) of
       Some s \<Rightarrow>
         (case formatted b prop (progresses b ! nat i) (Str s) of
            Inl e \<Rightarrow> Inl e
          | Inr t \<Rightarrow> Inr (t, m'))
     | None \<Rightarrow>
         (case Object_prototype (fst (property_tag (tagDelimiter b) prop)) of
            Some inherited \<Rightarrow>
              (case formatted b prop (progresses b ! nat i) inherited of
                 Inl e \<Rightarrow> Inl e
               | Inr t \<Rightarrow> Inr (t, m'))
          | None \<Rightarrow>
              (case dataProviders b (fst (property_tag (tagDelimiter b) prop)) of
                 None \<Rightarrow> Inr (''{'' @ prop @ ''}'', m')
               | Some g \<Rightarrow>
                   (case g (progresses b ! nat i) (progresses b) of
                      Inl e \<Rightarrow> Inl e
                    | Inr v \<Rightarrow>
                        (case formatted b prop (progresses b ! nat i) v of
                           Inl e \<Rightarrow> Inl e
                         | Inr t \<Rightarrow> Inr (t, m'))))))"
    using assms
    by (simp add: replacer_def substitute_def getDataValue_def payload_lookup_def Let_def
             split: option.splits sum.splits)
  moreover have "formatted b prop (progresses b ! nat i) (Str s)
                 = Inr (f s (progresses b ! nat i) (progresses b))"
    if "formatters b prop = Some f" for f s
    using that by (simp add: formatted_def formatter_for_def String_of_def)
  moreover have "formatted b prop (progresses b ! nat i) (Str s) = Inr s"
    if "formatters b prop = None \<and> Object_prototype prop = None" for s
    using that by (simp add: formatted_def formatter_for_def String_of_def)
  ultimately show ?thesis by blast
qed

theorem payload_before_provider_witness:
  "placeholder_index (BarItem [sample_progress (3 / 10) 300 None [''value'' \<mapsto> ''custom'']]
                        (with_template ''{value}'')) Map.empty ''value''
     = (0, [''value'' \<mapsto> 1])
   \<and> replacer (BarItem [sample_progress (3 / 10) 300 None [''value'' \<mapsto> ''custom'']]
                 (with_template ''{value}'')) Map.empty ''value''
     = Inr (''custom'', [''value'' \<mapsto> 1])
   \<and> render (BarItem [sample_progress (3 / 10) 300 None [''value'' \<mapsto> ''custom'']]
               (with_template ''{value}'')) = Inr ''custom''
   \<and> render (BarItem [sample_progress (3 / 10) 300 None Map.empty]
               (with_template ''{value}'')) = Inr ''300''"
  using payload_before_provider
    [of "BarItem [sample_progress (3 / 10) 300 None [''value'' \<mapsto> ''custom'']]
           (with_template ''{value}'')" Map.empty "''value''" 0 "[''value'' \<mapsto> 1]"]
  by (simp add: sample_defs render_defs)

text \<open>
  A placeholder keeps its own text, braces included, when its tag is the tag of no
  progress, when the counter of its property has reached the length of the progress
  list, and when its property is found neither by the payload lookup nor among the
  providers.
\<close>

lemma unresolved_kept:
  assumes "property_tag (tagDelimiter b) prop = (property, tag)"
    and "placeholder_index b m prop = (i, m')"
    and "(truthy tag \<and> (\<forall>p\<in>set (progresses b). getTag p \<noteq> tag))
         \<or> (\<not> truthy tag \<and> length (progresses b) \<le> (case m property of None \<Rightarrow> 0 | Some n \<Rightarrow> n))
         \<or> (0 \<le> i \<and> payload_lookup (progresses b ! nat i) property = None
              \<and> dataProviders b property = None)"
  shows "replacer b m prop = Inr (''{'' @ prop @ ''}'', m')"
proof -
  let ?n = "case m property of None \<Rightarrow> 0 | Some n \<Rightarrow> n"
  consider (tag) "truthy tag" "\<forall>p\<in>set (progresses b). getTag p \<noteq> tag"
    | (count) "\<not> truthy tag" "length (progresses b) \<le> ?n"
    | (null) "0 \<le> i" "payload_lookup (progresses b ! nat i) property = None"
        "dataProviders b property = None"
    using assms(3) by (elim disjE conjE) simp_all
  then show ?thesis
  proof cases
    case tag
    then have "i = - 1"
      using assms(1,2) findIndex_none [of "progresses b" "\<lambda>p. getTag p = tag"]
      by (simp add: placeholder_index_def)
    then show ?thesis using assms(2) by (simp add: replacer_def substitute_def)
  next
    case count
    then have "i = - 1"
      using assms(1,2) by (auto simp: placeholder_index_def getCounterByProperty_def Let_def)
    then show ?thesis using assms(2) by (simp add: replacer_def substitute_def)
  next
    case null
    then show ?thesis using assms(1,2)
      by (simp add: replacer_def substitute_def getDataValue_def)
  qed
qed

text \<open>
  C6. A property that is found neither in the payload nor among the providers keeps the
  placeholder, but the lookups are \<^verbatim>\<open>table[key]\<close> on object literals, which also find
  the members of \<^verbatim>\<open>Object.prototype\<close>: the placeholder \<^verbatim>\<open>{toString}\<close>, which has no
  payload entry and no provider, is replaced by \<^verbatim>\<open>[object Object]\<close>, and
  \<^verbatim>\<open>{__proto__}\<close>, under a delimiter that leaves it whole, ends the rendering in a
  \<^verbatim>\<open>TypeError\<close>, where \<^verbatim>\<open>{nonexistent}\<close> is kept.
\<close>

theorem inherited_key_not_kept:
  "getPayload (sample_progress (3 / 10) 300 (Some ''a'') Map.empty) ''toString'' = None
   \<and> userDataProviders (single_item ''{toString}'') ''toString'' = None
   \<and> formatters (single_item ''{toString}'') ''toString'' = None
   \<and> render (single_item ''{toString}'') = Inr ''[object Object]''
   \<and> render (BarItem [sample_progress (3 / 10) 300 (Some ''a'') Map.empty]
               (no_params\<lparr>par_tagDelimiter := Some '':'', par_template := Some ''{__proto__}''\<rparr>))
       = Inl TypeError
   \<and> render (single_item ''{nonexistent}'') = Inr ''{nonexistent}''"
  by (simp add: sample_defs single_item_def render_defs)

section \<open>The combined bar\<close>

lemma insort_cmp_by_size: "insort_cmp by_size x xs = insort_key entry_size x xs"
  by (induction xs) (simp_all add: by_size_def Math_sign_def)

lemma Array_sort_by_size: "Array_sort by_size xs = sort_key entry_size xs"
  by (induction xs) (simp_all add: Array_sort_def insort_cmp_by_size)

lemma sorted_entries_sorted: "sorted (map entry_size (sorted_entries b ps))"
  by (simp add: sorted_entries_def Array_sort_by_size)


lemma sorted_entries_mset: "mset (sorted_entries b ps) = mset (sized (width (options b)) ps)"
  by (simp add: sorted_entries_def Array_sort_by_size)

lemma reduce_lines_segments:
  "reduce_lines b ps prev lines es =
     (case collect (map (\<lambda>(len, e). renderBarsLine b len (entry_item e) ps) (segments prev es)) of
        Inl e \<Rightarrow> Inl e
      | Inr ls \<Rightarrow> Inr (last (prev # map entry_size es), lines @ ls))"
proof (induction es arbitrary: prev lines)
  case Nil
  then show ?case by simp
next
  case (Cons e es)
  show ?case
    by (cases "renderBarsLine b (entry_size e - prev) (entry_item e) ps")
       (simp_all add: Let_def Cons.IH split: sum.splits)
qed





lemma sized_sizes:
  "e \<in> set (sized w ps) \<Longrightarrow>
   \<exists>p\<in>set ps. entry_item e = p
             \<and> entry_size e = Math_round (times_double (getProgress p) (of_int w))"
  by (auto simp: sized_def dest: set_zip_leftD)

lemma set_sorted_entries: "set (sorted_entries b ps) = set (sized (width (options b)) ps)"
  using sorted_entries_mset [of b ps] by (metis set_mset_mset)

lemma sorted_entries_bounds:
  assumes "\<forall>p\<in>set ps. 0 \<le> getProgress p \<and> getProgress p \<le> 1"
    and "0 \<le> width (options b)" and "width (options b) < 2 ^ 53"
    and "e \<in> set (sorted_entries b ps)"
  shows "0 \<le> entry_size e \<and> entry_size e \<le> width (options b)"
proof -
  obtain p where p: "p \<in> set ps"
    "entry_size e = Math_round (times_double (getProgress p) (of_int (width (options b))))"
    using assms(4) sized_sizes [of e "width (options b)" ps] by (auto simp: set_sorted_entries)
  then show ?thesis
    using Math_round_bounds [of "getProgress p" "width (options b)"] assms(1,2,3) by simp
qed

lemma segments_bounds:
  "sorted (prev # map entry_size es) \<Longrightarrow> (len, e) \<in> set (segments prev es) \<Longrightarrow>
   0 < len \<and> len \<le> entry_size e - prev \<and> e \<in> set es"
proof (induction es arbitrary: prev)
  case Nil
  then show ?case by simp
next
  case (Cons x es)
  have s: "sorted (entry_size x # map entry_size es)" and le: "prev \<le> entry_size x"
    using Cons.prems(1) by simp_all
  from Cons.prems(2) consider "(len, e) = (entry_size x - prev, x)" "entry_size x - prev > 0"
    | "(len, e) \<in> set (segments (entry_size x) es)"
    by (auto split: if_splits)
  then show ?case
  proof cases
    case 1
    then show ?thesis by simp
  next
    case 2
    from Cons.IH [OF s 2] show ?thesis using le by simp
  qed
qed

lemma segments_sum:
  "sorted (prev # map entry_size es) \<Longrightarrow>
   sum_list (map fst (segments prev es)) = last (prev # map entry_size es) - prev"
proof (induction es arbitrary: prev)
  case Nil
  then show ?case by simp
next
  case (Cons x es)
  have s: "sorted (entry_size x # map entry_size es)" and le: "prev \<le> entry_size x"
    using Cons.prems(1) by simp_all
  show ?case using Cons.IH [OF s] le by simp
qed


lemma renderBarsLine_ok:
  "0 \<le> len \<Longrightarrow> len \<le> width (options b) \<Longrightarrow>
   renderBarsLine b len (entry_item e) ps = Inr (segment_text b ps (len, e))"
  by (simp add: renderBarsLine_def getBarParts_ok segment_text_def Let_def split: option.splits)

lemma collect_Inr: "collect (map (\<lambda>x. Inr (g x)) xs) = Inr (map g xs)"
  by (induction xs) simp_all

lemma collect_segments_ok:
  assumes "sorted (prev # map entry_size es)" and "0 \<le> prev"
    and "\<forall>e\<in>set es. entry_size e \<le> width (options b)"
  shows "collect (map (\<lambda>(len, e). renderBarsLine b len (entry_item e) ps) (segments prev es))
         = Inr (map (segment_text b ps) (segments prev es))"
proof -
  have eq: "map (\<lambda>(len, e). renderBarsLine b len (entry_item e) ps) (segments prev es)
        = map (\<lambda>seg. Inr (segment_text b ps seg)) (segments prev es)"
  proof (rule map_cong [OF refl])
    fix seg assume seg: "seg \<in> set (segments prev es)"
    obtain len e where le: "seg = (len, e)" by (cases seg)
    have "0 < len \<and> len \<le> entry_size e - prev \<and> e \<in> set es"
      using segments_bounds [OF assms(1)] seg le by simp
    then have "0 \<le> len" "len \<le> width (options b)" using assms(2,3) by auto
    then show "(case seg of (len, e) \<Rightarrow> renderBarsLine b len (entry_item e) ps) = Inr (segment_text b ps seg)"
      using le by (simp add: renderBarsLine_ok)
  qed
  show ?thesis by (simp only: eq collect_Inr)
qed

lemma line_formatter_ran: "line_formatter b itm = Some f \<Longrightarrow> f \<in> ran (formatters b)"
  by (auto simp: line_formatter_def ran_def split: option.splits)

lemma segment_text_length:
  assumes "\<forall>f\<in>ran (formatters b). \<forall>s p qs. length (f s p qs) \<le> length s"
    and "length (completeChar (options b)) \<le> 1"
  shows "length (segment_text b ps seg) \<le> nat (fst seg)"
proof -
  let ?line = "concat (replicate (nat (fst seg)) (completeChar (options b)))"
  have "length ?line = nat (fst seg) * length (completeChar (options b))"
    by (induction "nat (fst seg)") (simp_all add: length_concat sum_list_replicate)
  then have l: "length ?line \<le> nat (fst seg)" using assms(2)
    by (metis mult.right_neutral mult_le_mono2)
  show ?thesis
  proof (cases "line_formatter b (entry_item (snd seg))")
    case None
    then show ?thesis using l by (simp add: segment_text_def)
  next
    case (Some f)
    then have "length (f ?line (entry_item (snd seg)) ps) \<le> length ?line"
      using assms(1) line_formatter_ran [OF Some] by blast
    then show ?thesis using l Some by (simp add: segment_text_def)
  qed
qed

lemma segments_text_length:
  assumes "\<forall>f\<in>ran (formatters b). \<forall>s p qs. length (f s p qs) \<le> length s"
    and "length (completeChar (options b)) \<le> 1"
    and "sorted (prev # map entry_size es)"
  shows "int (length (concat (map (segment_text b ps) (segments prev es))))
         \<le> sum_list (map fst (segments prev es))"
  using assms(3)
proof (induction es arbitrary: prev)
  case Nil
  then show ?case by simp
next
  case (Cons x es)
  have s: "sorted (entry_size x # map entry_size es)" and le: "prev \<le> entry_size x"
    using Cons.prems(1) by simp_all
  have "int (length (segment_text b ps (entry_size x - prev, x))) \<le> entry_size x - prev"
    using segment_text_length [OF assms(1,2), of ps "(entry_size x - prev, x)"] le by simp
  then show ?case using Cons.IH [OF s] by simp
qed


lemma length_concat_replicate: "length (concat (replicate n s)) = n * length s"
  by (induction n) simp_all

lemma renderBars_lines_segments:
  "renderBars_lines b ps =
     (case collect (map (\<lambda>(len, e). renderBarsLine b len (entry_item e) ps)
                        (segments 0 (sorted_entries b ps))) of
        Inl e \<Rightarrow> Inl e
      | Inr ls \<Rightarrow>
          (if width (options b) - leftLength b ps > 0
           then (case repeat (resumeChar (options b)) (width (options b) - leftLength b ps) of
                   Inl e \<Rightarrow> Inl e
                 | Inr fill \<Rightarrow> Inr (ls @ [fill]))
           else Inr ls))"
  by (simp add: renderBars_lines_def reduce_lines_segments leftLength_def Let_def split: sum.splits)

text \<open>
  C1, as the code has it. When every ratio lies between 0 and 1 and the width is a
  non-negative integer below \<open>2 ^ 53\<close>, the combined bar is rendered without error; its
  lines are the segments of the walk followed by the fill, which is there only when its
  length is positive; the lengths of the segments add up to the largest size, which is
  at most the width, and the fill covers the rest: counted in cells, segments and fill
  never exceed the width. Counted in characters, glue apart, the bar is at most the width
  when the two fill strings are at most one character long and no formatter lengthens a
  segment.
\<close>

theorem renderBars_within_width:
  assumes "\<forall>p\<in>set ps. 0 \<le> getProgress p \<and> getProgress p \<le> 1"
    and "0 \<le> width (options b)" and "width (options b) < 2 ^ 53"
  shows "\<exists>ls fill.
           collect (map (\<lambda>(len, e). renderBarsLine b len (entry_item e) ps)
                        (segments 0 (sorted_entries b ps))) = Inr ls
         \<and> fill = (if leftLength b ps < width (options b)
                    then [concat (replicate (nat (width (options b) - leftLength b ps))
                                            (resumeChar (options b)))]
                    else [])
         \<and> renderBars_lines b ps = Inr (ls @ fill)
         \<and> renderBars b ps = Inr (join (glue (options b)) (ls @ fill))
         \<and> sum_list (map fst (segments 0 (sorted_entries b ps))) = leftLength b ps
         \<and> 0 \<le> leftLength b ps \<and> leftLength b ps \<le> width (options b)
         \<and> sum_list (map fst (segments 0 (sorted_entries b ps)))
             + (width (options b) - leftLength b ps) \<le> width (options b)
         \<and> ((\<forall>f\<in>ran (formatters b). \<forall>s p qs. length (f s p qs) \<le> length s)
              \<and> length (completeChar (options b)) \<le> 1 \<and> length (resumeChar (options b)) \<le> 1
              \<longrightarrow> int (length (concat (ls @ fill))) \<le> width (options b))"
proof -
  let ?w = "width (options b)"
  let ?es = "sorted_entries b ps"
  let ?M = "leftLength b ps"
  let ?ls = "map (segment_text b ps) (segments 0 ?es)"
  let ?fill = "if ?M < ?w then [concat (replicate (nat (?w - ?M)) (resumeChar (options b)))] else []"
  have bounds: "\<forall>e\<in>set ?es. 0 \<le> entry_size e \<and> entry_size e \<le> ?w"
    using sorted_entries_bounds [OF assms] by blast
  have srt: "sorted (0 # map entry_size ?es)"
    using sorted_entries_sorted [of b ps] bounds by simp
  have M: "0 \<le> ?M \<and> ?M \<le> ?w"
  proof (cases "?es = []")
    case True
    then show ?thesis using assms(2) by (simp add: leftLength_def)
  next
    case False
    then have "last ?es \<in> set ?es" by simp
    then show ?thesis using bounds False by (simp add: leftLength_def last_map)
  qed
  have col: "collect (map (\<lambda>(len, e). renderBarsLine b len (entry_item e) ps) (segments 0 ?es)) = Inr ?ls"
    using collect_segments_ok [OF srt, of b ps] bounds by simp
  have lines: "renderBars_lines b ps = Inr (?ls @ ?fill)"
    using M by (simp add: renderBars_lines_segments col repeat_ok)
  have rb: "renderBars b ps = Inr (join (glue (options b)) (?ls @ ?fill))"
    by (simp add: renderBars_def lines)
  have sm: "sum_list (map fst (segments 0 ?es)) = ?M"
    using segments_sum [OF srt] by (simp add: leftLength_def)
  have len: "int (length (concat (?ls @ ?fill))) \<le> ?w"
    if f: "\<forall>f\<in>ran (formatters b). \<forall>s p qs. length (f s p qs) \<le> length s"
      and c: "length (completeChar (options b)) \<le> 1" and r: "length (resumeChar (options b)) \<le> 1"
  proof -
    have a: "int (length (concat ?ls)) \<le> ?M"
      using segments_text_length [OF f c srt, of ps] sm by simp
    have "length (concat ?fill) \<le> nat (?w - ?M) * 1"
      using r by (simp add: length_concat_replicate)
    then have "int (length (concat ?fill)) \<le> ?w - ?M" using M by (simp split: if_splits)
    then show ?thesis using a by simp
  qed
  have cells: "sum_list (map fst (segments 0 ?es)) + (?w - ?M) \<le> ?w" using sm by simp
  show ?thesis
    using col lines rb sm M cells len by blast
qed




theorem renderBars_within_width_witness:
  "map getProgress sample_list = [4 / 5, 1 / 5, 1 / 2, 1 / 2]
   \<and> width (options sample_bars) = 10
   \<and> ran (formatters sample_bars) = {}
   \<and> completeChar (options sample_bars) = ''=''
   \<and> resumeChar (options sample_bars) = ''-''
   \<and> renderBars_lines sample_bars sample_list = Inr [''=='', ''==='', ''==='', ''--'']
   \<and> renderBars sample_bars sample_list = Inr ''==|===|===|--''
   \<and> map fst (segments 0 (sorted_entries sample_bars sample_list)) = [2, 3, 3]
   \<and> leftLength sample_bars sample_list = 8
   \<and> length (concat [''=='', ''==='', ''==='', ''--'']) = 10"
  using renderBars_within_width [of sample_list sample_bars]
  by (simp add: sample_defs sample_list_def sample_bars_def bars_defs sizes_eval
        eval_nat_numeral upt_rec)

theorem fill_of_two_characters_counterexample:
  "map getProgress (progresses two_char_fill) = [1]
   \<and> width (options two_char_fill) = 4
   \<and> renderBars_lines two_char_fill (progresses two_char_fill) = Inr [''abababab'']
   \<and> renderBars two_char_fill (progresses two_char_fill) = Inr ''abababab''
   \<and> length ''abababab'' = 8"
  by (simp add: sample_defs two_char_fill_def bars_defs sizes_eval eval_nat_numeral upt_rec)



section \<open>Positional binding\<close>

lemma replace_tokens_assemble:
  "replace_tokens b m ts = assemble b ts (index_trace b m (placeholders ts))"
proof (induction ts arbitrary: m)
  case Nil
  then show ?case by simp
next
  case (Cons t ts)
  show ?case
  proof (cases t)
    case (Lit c)
    then show ?thesis by (simp add: Cons.IH)
  next
    case (Placeholder q)
    obtain i m' where pidx: "placeholder_index b m q = (i, m')"
      by (cases "placeholder_index b m q")
    show ?thesis
      by (simp add: Placeholder pidx replacer_def Cons.IH split: sum.splits)
  qed
qed

lemma placeholder_index_tagged:
  "\<not> untagged (tagDelimiter b) q \<Longrightarrow>
   placeholder_index b m q
   = (findIndex (\<lambda>p. getTag p = snd (property_tag (tagDelimiter b) q)) (progresses b), m)"
  by (cases "property_tag (tagDelimiter b) q") (simp add: placeholder_index_def untagged_def)

lemma placeholder_index_untagged:
  "untagged (tagDelimiter b) q \<Longrightarrow>
   placeholder_index b m q
   = getCounterByProperty (length (progresses b)) m (property_of (tagDelimiter b) q)"
  by (cases "property_tag (tagDelimiter b) q")
     (simp add: placeholder_index_def untagged_def property_of_def)

lemma placeholder_index_counter_of:
  "placeholder_index b (counter_of (tagDelimiter b) seen) q
   = (positional_index b seen q, counter_of (tagDelimiter b) (seen @ [q]))"
proof (cases "untagged (tagDelimiter b) q")
  case False
  have "counter_of (tagDelimiter b) (seen @ [q]) = counter_of (tagDelimiter b) seen"
    using False by (simp add: counter_of_def occurrences_def fun_eq_iff)
  then show ?thesis
    using False by (simp add: placeholder_index_tagged positional_index_def)
next
  case True
  let ?k = "property_of (tagDelimiter b) q"
  have ceq: "counter_of (tagDelimiter b) (seen @ [q])
           = (counter_of (tagDelimiter b) seen)(?k \<mapsto> occurrences (tagDelimiter b) ?k seen + 1)"
    using True by (auto simp: counter_of_def occurrences_def fun_eq_iff)
  have neq: "(case counter_of (tagDelimiter b) seen ?k of None \<Rightarrow> 0 | Some i \<Rightarrow> i)
           = occurrences (tagDelimiter b) ?k seen"
    by (simp add: counter_of_def)
  show ?thesis
    using True
    by (simp add: placeholder_index_untagged getCounterByProperty_def neq ceq
          positional_index_def Let_def)
qed

lemma index_trace_counter_of:
  "index_trace b (counter_of (tagDelimiter b) seen) props
   = map (\<lambda>i. positional_index b (seen @ take i props) (props ! i)) [0 ..< length props]"
proof (induction props arbitrary: seen)
  case Nil
  then show ?case by simp
next
  case (Cons q props)
  have "map (\<lambda>i. positional_index b (seen @ take i (q # props)) ((q # props) ! i))
            [0 ..< length (q # props)]
        = positional_index b seen q
          # map (\<lambda>i. positional_index b ((seen @ [q]) @ take i props) (props ! i)) [0 ..< length props]"
    by (simp add: upt_conv_Cons map_Suc_upt [symmetric] o_def del: upt_Suc)
  then show ?case
    by (simp add: placeholder_index_counter_of Cons.IH del: upt_Suc)
qed

lemma counter_of_Nil: "counter_of sep [] = Map.empty"
  by (simp add: counter_of_def occurrences_def)

lemma index_trace_nth:
  assumes "i < length props"
  shows "index_trace b Map.empty props ! i = positional_index b (take i props) (props ! i)"
  using index_trace_counter_of [of b "[]" props] assms by (simp add: counter_of_Nil)

lemma index_trace_untagged:
  "map snd (filter (\<lambda>(q, i). untagged (tagDelimiter b) q) (zip props (index_trace b m props)))
   = index_trace b m (filter (untagged (tagDelimiter b)) props)"
proof (induction props arbitrary: m)
  case Nil
  then show ?case by simp
next
  case (Cons q props)
  show ?case
  proof (cases "untagged (tagDelimiter b) q")
    case False
    show ?thesis using False by (simp add: placeholder_index_tagged Cons.IH)
  next
    case True
    obtain i m' where pidx: "placeholder_index b m q = (i, m')"
      by (cases "placeholder_index b m q")
    show ?thesis using True by (simp add: pidx Cons.IH)
  qed
qed

text \<open>
  C4. Within one rendering the placeholders are resolved in template order, and an
  untagged placeholder resolves to the number of untagged occurrences of its property
  before it: the occurrence number N reads \<open>progresses ! N\<close>, and from the length of
  the progress list on the index is -1, which keeps the text of the placeholder.
\<close>

theorem positional_binding:
  "render b = assemble b (tokens (template b))
                (index_trace b Map.empty (placeholders (tokens (template b))))
   \<and> (\<forall>props i. i < length props \<and> untagged (tagDelimiter b) (props ! i) \<longrightarrow>
         index_trace b Map.empty props ! i
         = (let n = occurrences (tagDelimiter b) (property_of (tagDelimiter b) (props ! i))
                      (take i props)
            in if n < length (progresses b) then int n else - 1))
   \<and> (\<forall>q n. substitute b q (int n)
         = (case getDataValue b (property_of (tagDelimiter b) q) (progresses b ! n) of
              Inl e \<Rightarrow> Inl e
            | Inr None \<Rightarrow> Inr (''{'' @ q @ ''}'')
            | Inr (Some v) \<Rightarrow> formatted b q (progresses b ! n) v))
   \<and> (\<forall>q. substitute b q (- 1) = Inr (''{'' @ q @ ''}''))"
proof -
  have "index_trace b Map.empty props ! i
        = (let n = occurrences (tagDelimiter b) (property_of (tagDelimiter b) (props ! i))
                     (take i props)
           in if n < length (progresses b) then int n else - 1)"
    if "i < length props" and "untagged (tagDelimiter b) (props ! i)" for props i
    using index_trace_nth [OF that(1), of b] that(2) by (simp add: positional_index_def)
  moreover have "render b = assemble b (tokens (template b))
                   (index_trace b Map.empty (placeholders (tokens (template b))))"
    by (simp add: render_def replace_tokens_assemble)
  moreover have "substitute b q (int n)
         = (case getDataValue b (property_of (tagDelimiter b) q) (progresses b ! n) of
              Inl e \<Rightarrow> Inl e
            | Inr None \<Rightarrow> Inr (''{'' @ q @ ''}'')
            | Inr (Some v) \<Rightarrow> formatted b q (progresses b ! n) v)" for q n
    by (simp add: substitute_def property_of_def Let_def split: sum.splits option.splits)
  moreover have "substitute b q (- 1) = Inr (''{'' @ q @ ''}'')" for q
    by (simp add: substitute_def)
  ultimately show ?thesis by blast
qed

theorem positional_binding_witness:
  "placeholders (tokens ''{value} {value} {value}'') = [''value'', ''value'', ''value'']
   \<and> index_trace (two_items ''{value} {value} {value}'') Map.empty [''value'', ''value'', ''value'']
       = [0, 1, - 1]
   \<and> render (two_items ''{value} {value}'') = Inr ''100 200''
   \<and> render (two_items ''{value} {value} {value}'') = Inr ''100 200 {value}''"
  using positional_binding [of "two_items ''{value} {value} {value}''"]
  by (simp add: sample_defs two_items_def render_defs)

text \<open>
  C10. A tagged placeholder leaves the counters as they are, so the untagged
  placeholders of a template resolve to the indices they resolve to in the template
  without its tagged placeholders, wherever those stand.
\<close>

theorem tagged_placeholders_do_not_count:
  "(\<forall>m q. \<not> untagged (tagDelimiter b) q \<longrightarrow>
      placeholder_index b m q
      = (findIndex (\<lambda>p. getTag p = snd (property_tag (tagDelimiter b) q)) (progresses b), m))
   \<and> (\<forall>m props.
         map snd (filter (\<lambda>(q, i). untagged (tagDelimiter b) q) (zip props (index_trace b m props)))
         = index_trace b m (filter (untagged (tagDelimiter b)) props))
   \<and> render b = assemble b (tokens (template b))
                  (index_trace b Map.empty (placeholders (tokens (template b))))"
  using placeholder_index_tagged [of b] index_trace_untagged [of b]
  by (simp add: render_def replace_tokens_assemble)

theorem tagged_placeholders_do_not_count_witness:
  "placeholders (tokens ''{b_value} {value} {a_value} {b_value} {value}'')
     = [''b_value'', ''value'', ''a_value'', ''b_value'', ''value'']
   \<and> index_trace (tagged_items ''{value} {value}'') Map.empty
         [''b_value'', ''value'', ''a_value'', ''b_value'', ''value''] = [1, 0, 0, 1, 1]
   \<and> index_trace (tagged_items ''{value} {value}'') Map.empty [''value'', ''value''] = [0, 1]
   \<and> render (tagged_items ''{b_value} {value} {a_value} {b_value} {value}'')
       = Inr ''200 100 100 200 200''
   \<and> render (tagged_items ''{value} {value}'') = Inr ''100 200''"
  using tagged_placeholders_do_not_count [of "tagged_items ''{value} {value}''"]
  by (simp add: sample_defs tagged_items_def render_defs)


section \<open>Tags\<close>

lemma split_from_no_sep:
  "sep \<noteq> [] \<Longrightarrow> \<not> sublist sep s \<Longrightarrow> split_from sep acc s = [rev acc @ s]"
proof (induction s arbitrary: acc)
  case Nil
  then show ?case by simp
next
  case (Cons c cs)
  have np: "\<not> prefix sep (c # cs)" and ns: "\<not> sublist sep cs"
    using Cons.prems(2) by (simp_all add: sublist_Cons_right)
  show ?case using np Cons.IH [OF Cons.prems(1) ns] by simp
qed

lemma prefix_within:
  assumes "prefix xs (ys @ zs)" and "length xs \<le> length ys"
  shows "prefix xs ys"
  using assms by (auto simp: prefix_append)

lemma split_from_one:
  "sep \<noteq> [] \<Longrightarrow> \<not> sublist sep (t @ butlast sep) \<Longrightarrow>
   split_from sep acc (t @ sep @ p) = (rev acc @ t) # split_from sep [] p"
proof (induction t arbitrary: acc)
  case Nil
  obtain c sep' where sep: "sep = c # sep'" using Nil.prems(1) by (cases sep) auto
  show ?case by (simp add: sep)
next
  case (Cons x t)
  have ns: "\<not> sublist sep (t @ butlast sep)"
    using Cons.prems(2) by (simp add: sublist_Cons_right)
  have np: "\<not> prefix sep (x # t @ sep @ p)"
  proof
    assume pre: "prefix sep (x # t @ sep @ p)"
    have dec: "x # t @ sep @ p = ((x # t) @ butlast sep) @ ([last sep] @ p)"
      using Cons.prems(1) by simp
    have "length sep \<le> length ((x # t) @ butlast sep)" by simp
    then have "prefix sep ((x # t) @ butlast sep)"
      using pre prefix_within [of sep "(x # t) @ butlast sep" "[last sep] @ p"] by (simp only: dec)
    then show False using Cons.prems(2) by (auto simp: sublist_Cons_right)
  qed
  show ?case using np Cons.IH [OF Cons.prems(1) ns] by simp
qed

lemma property_tag_plain:
  assumes "sep \<noteq> []" and "\<not> sublist sep p"
  shows "property_tag sep p = (p, None)"
  using assms by (simp add: property_tag_def split_def split_from_no_sep)

lemma property_tag_once:
  assumes "sep \<noteq> []" and "\<not> sublist sep (t @ butlast sep)" and "\<not> sublist sep p"
  shows "property_tag sep (t @ sep @ p) = (p, Some t)"
  using assms by (simp add: property_tag_def split_def split_from_one split_from_no_sep)

lemma property_tag_pieces:
  assumes "split q sep = xs @ [t, p]"
  shows "property_tag sep q = (p, Some t)"
  using assms by (simp add: property_tag_def)


lemma findIndex_some: "\<exists>x\<in>set xs. P x \<Longrightarrow> 0 \<le> findIndex P xs"
proof (induction xs)
  case Nil
  then show ?case by simp
next
  case (Cons a xs)
  show ?case
  proof (cases "P a")
    case True
    then show ?thesis by simp
  next
    case False
    then have "\<exists>x\<in>set xs. P x" using Cons.prems by simp
    then have "0 \<le> findIndex P xs" by (rule Cons.IH)
    then show ?thesis using False by (simp add: Let_def)
  qed
qed

text \<open>
  C5, as the code has it. The text between the braces is cut at every occurrence of the
  delimiter; the property is the last piece and the tag the piece before it. When the
  delimiter occurs once, these are the text after it and the text before it, and a text
  without the delimiter is a property with no tag. A placeholder with a non-empty tag
  takes the first progress that carries the tag, wherever it stands in the list, and
  leaves the counters alone; when no progress carries the tag it keeps its own text.
\<close>

theorem tag_and_property:
  "(\<forall>q xs t p. split q (tagDelimiter b) = xs @ [t, p] \<longrightarrow>
      property_tag (tagDelimiter b) q = (p, Some t))
   \<and> (\<forall>t p. tagDelimiter b \<noteq> [] \<and> \<not> sublist (tagDelimiter b) (t @ butlast (tagDelimiter b))
               \<and> \<not> sublist (tagDelimiter b) p \<longrightarrow>
         property_tag (tagDelimiter b) (t @ tagDelimiter b @ p) = (p, Some t))
   \<and> (\<forall>p. tagDelimiter b \<noteq> [] \<and> \<not> sublist (tagDelimiter b) p \<longrightarrow>
         property_tag (tagDelimiter b) p = (p, None))
   \<and> (\<forall>m q. \<not> untagged (tagDelimiter b) q \<longrightarrow>
         replacer b m q
         = (case substitute b q
                   (findIndex (\<lambda>p. getTag p = snd (property_tag (tagDelimiter b) q)) (progresses b)) of
              Inl e \<Rightarrow> Inl e
            | Inr s \<Rightarrow> Inr (s, m)))
   \<and> (\<forall>tag. (\<exists>p\<in>set (progresses b). getTag p = tag) \<longrightarrow>
         0 \<le> findIndex (\<lambda>p. getTag p = tag) (progresses b)
         \<and> findIndex (\<lambda>p. getTag p = tag) (progresses b) < int (length (progresses b))
         \<and> getTag (progresses b ! nat (findIndex (\<lambda>p. getTag p = tag) (progresses b))) = tag
         \<and> (\<forall>j < nat (findIndex (\<lambda>p. getTag p = tag) (progresses b)).
               getTag (progresses b ! j) \<noteq> tag))
   \<and> (\<forall>m q. \<not> untagged (tagDelimiter b) q
              \<and> (\<forall>p\<in>set (progresses b). getTag p \<noteq> snd (property_tag (tagDelimiter b) q)) \<longrightarrow>
         replacer b m q = Inr (''{'' @ q @ ''}'', m))"
proof -
  have a: "property_tag (tagDelimiter b) q = (p, Some t)"
    if "split q (tagDelimiter b) = xs @ [t, p]" for q xs t p
    using that by (rule property_tag_pieces)
  have c: "property_tag (tagDelimiter b) (t @ tagDelimiter b @ p) = (p, Some t)"
    if "tagDelimiter b \<noteq> [] \<and> \<not> sublist (tagDelimiter b) (t @ butlast (tagDelimiter b))
        \<and> \<not> sublist (tagDelimiter b) p" for t p
    using that by (simp add: property_tag_once)
  have d: "property_tag (tagDelimiter b) p = (p, None)"
    if "tagDelimiter b \<noteq> [] \<and> \<not> sublist (tagDelimiter b) p" for p
    using that by (simp add: property_tag_plain)
  have e: "replacer b m q
         = (case substitute b q
                   (findIndex (\<lambda>p. getTag p = snd (property_tag (tagDelimiter b) q)) (progresses b)) of
              Inl e \<Rightarrow> Inl e
            | Inr s \<Rightarrow> Inr (s, m))"
    if "\<not> untagged (tagDelimiter b) q" for m q
    using that by (simp add: replacer_def placeholder_index_tagged)
  have f: "0 \<le> findIndex (\<lambda>p. getTag p = tag) (progresses b)
         \<and> findIndex (\<lambda>p. getTag p = tag) (progresses b) < int (length (progresses b))
         \<and> getTag (progresses b ! nat (findIndex (\<lambda>p. getTag p = tag) (progresses b))) = tag
         \<and> (\<forall>j < nat (findIndex (\<lambda>p. getTag p = tag) (progresses b)).
               getTag (progresses b ! j) \<noteq> tag)"
    if "\<exists>p\<in>set (progresses b). getTag p = tag" for tag
  proof -
    have nn: "0 \<le> findIndex (\<lambda>p. getTag p = tag) (progresses b)"
      using that by (rule findIndex_some)
    show ?thesis
      using nn findIndex_found [OF nn] findIndex_range [of "\<lambda>p. getTag p = tag" "progresses b"]
      by simp
  qed
  have g: "replacer b m q = Inr (''{'' @ q @ ''}'', m)"
    if "\<not> untagged (tagDelimiter b) q
        \<and> (\<forall>p\<in>set (progresses b). getTag p \<noteq> snd (property_tag (tagDelimiter b) q))" for m q
    using that
      findIndex_none [of "progresses b" "\<lambda>p. getTag p = snd (property_tag (tagDelimiter b) q)"]
    by (simp add: e substitute_def)
  show ?thesis
    apply (intro conjI allI impI)
    subgoal for q xs t p by (rule a)
    subgoal for t p by (rule c)
    subgoal for p by (rule d)
    subgoal for m q by (rule e)
    subgoal for tag using f [of tag] by simp
    subgoal for tag using f [of tag] by simp
    subgoal for tag using f [of tag] by simp
    subgoal for tag j using f [of tag] by simp
    subgoal for m q by (rule g)
    done
qed

theorem tag_and_property_witness:
  "property_tag ''_'' ''worker1_bar'' = (''bar'', Some ''worker1'')
   \<and> property_tag ''_'' ''bar'' = (''bar'', None)
   \<and> tagDelimiter (tagged_items ''{b_value} {a_value} {c_value}'') = ''_''
   \<and> replacer (tagged_items ''{b_value} {a_value} {c_value}'') Map.empty ''c_value''
       = Inr (''{c_value}'', Map.empty)
   \<and> render (tagged_items ''{b_value} {a_value} {c_value}'') = Inr ''200 100 {c_value}''"
  using tag_and_property [of "tagged_items ''{b_value} {a_value} {c_value}''"]
  by (simp add: sample_defs tagged_items_def render_defs)

theorem tag_with_delimiter_counterexample:
  "split ''a_b_value'' ''_'' = [''a'', ''b'', ''value'']
   \<and> property_tag ''_'' ''a_b_value'' = (''value'', Some ''b'')
   \<and> render (underscore_items ''{a_b_value}'') = Inr ''200''
   \<and> render (BarItem [sample_progress (7 / 10) 700 (Some ''a_b'') Map.empty]
               (with_template ''{a_b_value}'')) = Inr ''{a_b_value}''"
  by (simp add: sample_defs underscore_items_def render_defs)


section \<open>Rendering twice\<close>

lemma sized_same:
  assumes "list_all2 same_state ps ps'"
  shows "list_all2 same_entry (sized w ps) (sized w ps')"
proof -
  have len: "length ps' = length ps" using assms by (simp add: list_all2_lengthD)
  have "same_entry (sized w ps ! i) (sized w ps' ! i)" if "i < length ps" for i
    using that len list_all2_nthD [OF assms that]
    by (simp add: sized_def same_entry_def same_state_def)
  then show ?thesis by (simp add: list_all2_conv_all_nth sized_def len)
qed

lemma insort_same:
  "list_all2 same_entry xs xs' \<Longrightarrow> same_entry x x' \<Longrightarrow>
   list_all2 same_entry (insort_cmp by_size x xs) (insort_cmp by_size x' xs')"
proof (induction xs xs' rule: list_all2_induct)
  case Nil
  then show ?case by simp
next
  case (Cons y ys y' ys')
  have "by_size x' y' = by_size x y"
    using Cons.hyps(1) Cons.prems by (simp add: by_size_def same_entry_def)
  then show ?case using Cons by simp
qed

lemma sort_same:
  "list_all2 same_entry xs xs' \<Longrightarrow>
   list_all2 same_entry (Array_sort by_size xs) (Array_sort by_size xs')"
  unfolding Array_sort_def
  by (induction xs xs' rule: list_all2_induct) (simp_all add: insort_same)


lemma getBarParts_same:
  "same_config b b' \<Longrightarrow> getBarParts b' len p' = getBarParts b len p"
  by (simp add: getBarParts_def same_config_def split: sum.splits)

lemma line_formatter_same:
  "same_config b b' \<Longrightarrow> same_state p p' \<Longrightarrow> line_formatter b' p' = line_formatter b p"
  by (simp add: line_formatter_def same_config_def same_state_def tag_text_def split: option.splits)

lemma renderBarsLine_same:
  assumes "same_config b b'" and "eta_blind b" and "same_state p p'"
    and "list_all2 same_state ps ps'"
  shows "renderBarsLine b' len p' ps' = renderBarsLine b len p ps"
proof (cases "line_formatter b p")
  case None
  then show ?thesis
    using line_formatter_same [OF assms(1,3)] getBarParts_same [OF assms(1), of len p' p]
    by (simp add: renderBarsLine_def Let_def split: sum.splits)
next
  case (Some f)
  then have "f \<in> ran (formatters b)" by (rule line_formatter_ran)
  then have "f s p' ps' = f s p ps" for s
    using assms(2,3,4) unfolding eta_blind_def by blast
  then show ?thesis
    using Some line_formatter_same [OF assms(1,3)] getBarParts_same [OF assms(1), of len p' p]
    by (simp add: renderBarsLine_def Let_def split: sum.splits)
qed

lemma reduce_lines_same:
  assumes "same_config b b'" and "eta_blind b" and "list_all2 same_state ps ps'"
  shows "list_all2 same_entry es es' \<Longrightarrow>
         reduce_lines b' ps' prev lines es' = reduce_lines b ps prev lines es"
proof (induction es es' arbitrary: prev lines rule: list_all2_induct)
  case Nil
  then show ?case by simp
next
  case (Cons e es e' es')
  have sz: "entry_size e' = entry_size e" and st: "same_state (entry_item e) (entry_item e')"
    using Cons.hyps(1) by (simp_all add: same_entry_def)
  have "renderBarsLine b' len (entry_item e') ps' = renderBarsLine b len (entry_item e) ps" for len
    using renderBarsLine_same [OF assms(1,2) st assms(3)] .
  then show ?case by (simp add: sz Cons.IH Let_def split: sum.splits)
qed

lemma renderBars_same:
  assumes "same_config b b'" and "eta_blind b" and "list_all2 same_state ps ps'"
  shows "renderBars b' ps' = renderBars b ps"
proof -
  have o: "options b' = options b" using assms(1) by (simp add: same_config_def)
  have "list_all2 same_entry (sorted_entries b ps) (sorted_entries b' ps')"
    unfolding sorted_entries_def o by (intro sort_same sized_same assms(3))
  then have "reduce_lines b' ps' 0 [] (sorted_entries b' ps') = reduce_lines b ps 0 [] (sorted_entries b ps)"
    by (rule reduce_lines_same [OF assms])
  then show ?thesis
    by (simp add: renderBars_def renderBars_lines_def o Let_def split: sum.splits prod.splits)
qed

lemma bar_same: "same_config b b' \<Longrightarrow> bar b' r p' = bar b r p"
  by (simp add: bar_def getBarParts_same [of b b' _ p' p] same_config_def Let_def split: sum.splits)

lemma getDataValue_same:
  assumes "same_config b b'" and "eta_blind b" and "same_state p p'"
    and "list_all2 same_state (progresses b) (progresses b')"
    and "key \<notin> {''speed'', ''eta'', ''duration''}"
  shows "getDataValue b' key p' = getDataValue b key p"
proof (cases "payload_lookup p key")
  case (Some v)
  then show ?thesis
    using assms(3) by (simp add: getDataValue_def payload_lookup_def same_state_def)
next
  case None
  then have np: "payload_lookup p' key = None"
    using assms(3) by (simp add: payload_lookup_def same_state_def)
  have u: "userDataProviders b' = userDataProviders b" using assms(1) by (simp add: same_config_def)
  have own: "own_provider b' = own_provider b" by (simp add: own_provider_def u fun_eq_iff)
  show ?thesis
  proof (cases "userDataProviders b key")
    case (Some g)
    then have "g \<in> ran (userDataProviders b)" by (auto simp: ran_def)
    then have "g p' (progresses b') = g p (progresses b)"
      using assms(2,3,4) unfolding eta_blind_def by blast
    then show ?thesis using None np Some u by (simp add: getDataValue_def dataProviders_def)
  next
    case None2: None
    have rb: "renderBars b' (progresses b') = renderBars b (progresses b)"
      using renderBars_same [OF assms(1,2,4)] .
    have br: "bar b' (getProgress p') p' = bar b (getProgress p) p"
      using bar_same [OF assms(1)] assms(3) by (simp add: same_state_def)
    show ?thesis
      using None np None2 u assms(3,5) rb br own
      by (simp add: getDataValue_def dataProviders_def same_state_def split: option.splits)
  qed
qed

lemma formatted_same:
  assumes "same_config b b'" and "eta_blind b" and "same_state p p'"
    and "list_all2 same_state (progresses b) (progresses b')"
  shows "formatted b' q p' v = formatted b q p v"
proof (cases "formatters b q")
  case (Some g)
  then have "g \<in> ran (formatters b)" by (auto simp: ran_def)
  then have "g s p' (progresses b') = g s p (progresses b)" for s
    using assms(2,3,4) unfolding eta_blind_def by blast
  then show ?thesis
    using Some assms(1) by (simp add: formatted_def formatter_for_def same_config_def)
next
  case None
  have f: "formatters b' = formatters b" using assms(1) by (simp add: same_config_def)
  show ?thesis
    using None by (simp add: formatted_def formatter_for_def f split: option.splits)
qed

lemma findIndex_same:
  "list_all2 same_state ps ps' \<Longrightarrow>
   findIndex (\<lambda>p. getTag p = t) ps' = findIndex (\<lambda>p. getTag p = t) ps"
  by (induction ps ps' rule: list_all2_induct) (simp_all add: same_state_def)

lemma placeholder_index_same:
  assumes "same_config b b'" and "list_all2 same_state (progresses b) (progresses b')"
  shows "placeholder_index b' m q = placeholder_index b m q"
proof -
  have d: "tagDelimiter b' = tagDelimiter b" using assms(1) by (simp add: same_config_def)
  have l: "length (progresses b') = length (progresses b)"
    using assms(2) by (simp add: list_all2_lengthD)
  show ?thesis
    by (simp add: placeholder_index_def d l findIndex_same [OF assms(2)] split: prod.splits)
qed

lemma placeholder_index_range:
  assumes "placeholder_index b m q = (i, m')"
  shows "i < int (length (progresses b))"
proof (cases "untagged (tagDelimiter b) q")
  case True
  then show ?thesis
    using assms by (auto simp: placeholder_index_untagged getCounterByProperty_def Let_def)
next
  case False
  then show ?thesis
    using assms findIndex_range [of "\<lambda>p. getTag p = snd (property_tag (tagDelimiter b) q)" "progresses b"]
    by (auto simp: placeholder_index_tagged)
qed

lemma substitute_same:
  assumes "same_config b b'" and "eta_blind b"
    and "list_all2 same_state (progresses b) (progresses b')"
    and "property_of (tagDelimiter b) q \<notin> {''speed'', ''eta'', ''duration''}"
    and "i < int (length (progresses b))"
  shows "substitute b' q i = substitute b q i"
proof (cases "i < 0")
  case True
  then show ?thesis by (simp add: substitute_def)
next
  case False
  let ?p = "progresses b ! nat i" and ?p' = "progresses b' ! nat i"
  have d: "tagDelimiter b' = tagDelimiter b"
    using assms(1) by (simp add: same_config_def)
  have st: "same_state ?p ?p'"
    using False assms(5) list_all2_nthD [OF assms(3), of "nat i"] by simp
  have gv: "getDataValue b' (fst (property_tag (tagDelimiter b) q)) ?p'
            = getDataValue b (fst (property_tag (tagDelimiter b) q)) ?p"
    using getDataValue_same [OF assms(1,2) st assms(3)] assms(4) by (simp add: property_of_def)
  have fm: "formatted b' q ?p' v = formatted b q ?p v" for v
    using formatted_same [OF assms(1,2) st assms(3)] .
  show ?thesis
    using False
    by (simp add: substitute_def d gv fm Let_def split: sum.splits option.splits)
qed

lemma replace_tokens_same:
  assumes "same_config b b'" and "eta_blind b"
    and "list_all2 same_state (progresses b) (progresses b')"
  shows "list_all (\<lambda>q. property_of (tagDelimiter b) q \<notin> {''speed'', ''eta'', ''duration''})
           (placeholders ts) \<Longrightarrow>
         replace_tokens b' m ts = replace_tokens b m ts"
proof (induction ts arbitrary: m)
  case Nil
  then show ?case by simp
next
  case (Cons t ts)
  show ?case
  proof (cases t)
    case (Lit c)
    then show ?thesis using Cons by simp
  next
    case (Placeholder q)
    obtain i m' where pidx: "placeholder_index b m q = (i, m')"
      by (cases "placeholder_index b m q")
    have pidx': "placeholder_index b' m q = (i, m')"
      using placeholder_index_same [OF assms(1,3)] pidx by simp
    have q: "property_of (tagDelimiter b) q \<notin> {''speed'', ''eta'', ''duration''}"
      and rest: "list_all (\<lambda>q. property_of (tagDelimiter b) q \<notin> {''speed'', ''eta'', ''duration''})
                   (placeholders ts)"
      using Cons.prems Placeholder by simp_all
    have "substitute b' q i = substitute b q i"
      using substitute_same [OF assms q placeholder_index_range [OF pidx]] .
    then show ?thesis
      by (simp add: Placeholder replacer_def pidx pidx' Cons.IH [OF rest] split: sum.splits)
  qed
qed

text \<open>
  C9, as the code has it. Rendering reads the item and its progresses and returns a
  string: it changes neither. When no progress was incremented between two renderings,
  the formatters and providers given at construction do not read the ETA calculator, and
  the template asks for no speed, ETA or duration, the second rendering returns what the
  first returned, whatever time has passed. The three placeholders left out follow the clock.
\<close>

theorem render_again:
  assumes "list_all2 same_state (progresses b) ps'" and "eta_blind b" and "clock_free b"
  shows "render (b\<lparr>progresses := ps'\<rparr>) = render b"
proof -
  have c: "same_config b (b\<lparr>progresses := ps'\<rparr>)" by (simp add: same_config_def)
  have p: "list_all2 same_state (progresses b) (progresses (b\<lparr>progresses := ps'\<rparr>))"
    using assms(1) by simp
  show ?thesis
    using replace_tokens_same [OF c assms(2) p, of "tokens (template b)" Map.empty] assms(3)
    by (simp add: render_def clock_free_def)
qed



theorem render_again_witness:
  "same_state (at_time 400 (sample_progress (3 / 10) 300 None Map.empty))
              (at_time 1600 (sample_progress (3 / 10) 300 None Map.empty))
   \<and> eta_blind (BarItem [at_time 400 (sample_progress (3 / 10) 300 None Map.empty)]
                  (with_template ''[{bar}] {percentage} {value}/{total}''))
   \<and> clock_free (BarItem [at_time 400 (sample_progress (3 / 10) 300 None Map.empty)]
                   (with_template ''[{bar}] {percentage} {value}/{total}''))
   \<and> render (BarItem [at_time 400 (sample_progress (3 / 10) 300 None Map.empty)]
               (with_template ''[{bar}] {percentage} {value}/{total}''))
       = Inr ''[============----------------------------] 30% 300/1000''
   \<and> render (BarItem [at_time 1600 (sample_progress (3 / 10) 300 None Map.empty)]
               (with_template ''[{bar}] {percentage} {value}/{total}''))
       = Inr ''[============----------------------------] 30% 300/1000''"
  using render_again
    [of "BarItem [at_time 400 (sample_progress (3 / 10) 300 None Map.empty)]
           (with_template ''[{bar}] {percentage} {value}/{total}'')"
        "[at_time 1600 (sample_progress (3 / 10) 300 None Map.empty)]"]
  by (simp add: sample_defs render_defs at_time_def same_state_def eta_blind_def clock_free_def
        property_of_def bar_def getBarParts_def repeat_def sizes_eval replicate_numeral)

theorem render_clock_counterexample:
  "getValue (at_time 400 (sample_progress (3 / 10) 300 None Map.empty))
     = getValue (at_time 1600 (sample_progress (3 / 10) 300 None Map.empty))
   \<and> render (BarItem [at_time 400 (sample_progress (3 / 10) 300 None Map.empty)]
               (with_template ''{value} {duration}'')) = Inr ''300 0s''
   \<and> render (BarItem [at_time 1600 (sample_progress (3 / 10) 300 None Map.empty)]
               (with_template ''{value} {duration}'')) = Inr ''300 2s''"
  by (simp add: sample_defs render_defs at_time_def sizes_eval)


end
